theory Spec2Isabelle
  imports Main "HOL-Library.AList" "HOL-Library.Multiset"
begin

section \<open>Nodes (package node)\<close>

text \<open>
  Go's \<open>error\<close> values that the program creates or passes on. \<open>NodeDoesNotExist\<close> is
  \<open>fmt.Errorf("node %s does not exist", id)\<close> of \<open>AddEdge\<close>, \<open>InputCount\<close> and
  \<open>InputEmpty\<close> are the two errors of \<open>LLMNode.Execute\<close>, \<open>Unorderable\<close> is the error
  of \<open>topo.Sort\<close> on a cyclic graph, and \<open>External\<close> is any error value returned by a
  caller-supplied processor or LLM client.
\<close>

type_synonym NodeID = string

datatype error =
    NodeDoesNotExist NodeID
  | InputCount nat
  | InputEmpty
  | Unorderable
  | External string

text \<open>
  The two implementations of the \<open>Node\<close> interface. Each carries its name, its stored
  inputs, its stored outputs and the capability it wraps. A Go function returning
  \<open>(string, error)\<close> is a function into \<open>error + string\<close>; a nil slice is \<open>[]\<close>.
\<close>

datatype node =
    TextNode string "string list" "string list" "string list \<Rightarrow> error + string"
  | LLMNode string "string list" "string list" "string \<Rightarrow> error + string"

definition NewTextNode :: "string \<Rightarrow> (string list \<Rightarrow> error + string) \<Rightarrow> node" where
  "NewTextNode name processor = TextNode name [] [] processor"

definition NewLLMNode :: "string \<Rightarrow> (string \<Rightarrow> error + string) \<Rightarrow> node" where
  "NewLLMNode name client = LLMNode name [] [] client"

fun Name :: "node \<Rightarrow> string" where
  "Name (TextNode name ins outs p) = name"
| "Name (LLMNode name ins outs cl) = name"

fun SetInputs :: "node \<Rightarrow> string list \<Rightarrow> node" where
  "SetInputs (TextNode name ins outs p) xs = TextNode name xs outs p"
| "SetInputs (LLMNode name ins outs cl) xs = LLMNode name xs outs cl"

fun GetInputs :: "node \<Rightarrow> string list" where
  "GetInputs (TextNode name ins outs p) = ins"
| "GetInputs (LLMNode name ins outs cl) = ins"

fun GetOutputs :: "node \<Rightarrow> string list" where
  "GetOutputs (TextNode name ins outs p) = outs"
| "GetOutputs (LLMNode name ins outs cl) = outs"

text \<open>
  \<open>Execute\<close> returns the error (or nil) and the node as it is after the call.
  \<open>LLMNode.Execute\<close> checks \<open>len(n.inputs) != 1\<close>, then \<open>len(n.inputs[0]) == 0\<close>, then
  calls \<open>GenerateResponse\<close>.
\<close>

fun Execute_node :: "node \<Rightarrow> error option \<times> node" where
  "Execute_node (TextNode name ins outs p) =
     (case p ins of
        Inl err \<Rightarrow> (Some err, TextNode name ins outs p)
      | Inr output \<Rightarrow> (None, TextNode name ins [output] p))"
| "Execute_node (LLMNode name ins outs cl) =
     (if length ins \<noteq> 1 then (Some (InputCount (length ins)), LLMNode name ins outs cl)
      else if length (hd ins) = 0 then (Some InputEmpty, LLMNode name ins outs cl)
      else (case cl (hd ins) of
              Inl err \<Rightarrow> (Some err, LLMNode name ins outs cl)
            | Inr response \<Rightarrow> (None, LLMNode name ins [response] cl)))"

section \<open>The graph library (gonum simple.DirectedGraph)\<close>

text \<open>
  The graph is kept by the external library gonum. Its nodes are numbered; \<open>NewNode\<close>
  returns a node with an unused number, \<open>AddNode\<close> stores it. \<open>SetEdge\<close> panics
  ("simple: adding self edge") when both ends have the same number, and otherwise
  adds the ends that the graph does not have yet and stores the edge, replacing an equal
  one (the graph is simple: an edge is in it at most once). \<open>From\<close> and \<open>To\<close> give the
  successors and the predecessors of a node.
\<close>

record DirectedGraph =
  gnodes :: "nat list"
  gedges :: "(nat \<times> nat) list"

definition NewDirectedGraph :: DirectedGraph where
  "NewDirectedGraph = \<lparr>gnodes = [], gedges = []\<rparr>"

definition NewNode :: "DirectedGraph \<Rightarrow> nat" where
  "NewNode g = length (gnodes g)"

definition AddNode_graph :: "DirectedGraph \<Rightarrow> nat \<Rightarrow> DirectedGraph" where
  "AddNode_graph g n = g\<lparr>gnodes := gnodes g @ [n]\<rparr>"

definition addIfMissing :: "nat list \<Rightarrow> nat \<Rightarrow> nat list" where
  "addIfMissing ns n = (if n \<in> set ns then ns else ns @ [n])"

definition SetEdge :: "DirectedGraph \<Rightarrow> nat \<Rightarrow> nat \<Rightarrow> DirectedGraph option" where
  "SetEdge g u v =
     (if u = v then None
      else Some (g\<lparr>gnodes := addIfMissing (addIfMissing (gnodes g) u) v,
                   gedges := (if (u, v) \<in> set (gedges g) then gedges g
                              else gedges g @ [(u, v)])\<rparr>))"

definition From :: "DirectedGraph \<Rightarrow> nat \<Rightarrow> nat list" where
  "From g u = map snd (filter (\<lambda>e. fst e = u) (gedges g))"

definition To :: "DirectedGraph \<Rightarrow> nat \<Rightarrow> nat list" where
  "To g v = map fst (filter (\<lambda>e. snd e = v) (gedges g))"

text \<open>
  The library keeps the edges in Go maps, so a loop over \<open>From\<close> or \<open>To\<close> meets the
  neighbours in an order that is not fixed. \<open>From\<close> and \<open>To\<close> above list them in the
  order in which the edges were added; a loop may meet them in that order (\<open>None\<close>) or in
  any other order \<open>xs\<close> of the same nodes, which is then a choice of the run.
\<close>

fun iterate :: "nat list option \<Rightarrow> nat list \<Rightarrow> nat list option" where
  "iterate None ys = Some ys"
| "iterate (Some xs) ys = (if mset xs = mset ys then Some xs else None)"

section \<open>The graph store (package dag)\<close>

datatype NodeStatus = Pending | Running | Completed | Error

datatype NodeState = NodeState NodeID NodeStatus

datatype NodeIO = NodeIO NodeID "string list" "string list"

text \<open>
  A channel is the list of the values sent on it so far and whether it has been closed.
  Both channels of the program are unbuffered: a send waits for a receiver. The model
  takes the subscribers of the spec for granted and lets every send go through.
\<close>

record 'a chan =
  sent :: "'a list"
  closed :: bool

definition make_chan :: "'a chan" where
  "make_chan = \<lparr>sent = [], closed = False\<rparr>"

text \<open>Sending on a closed channel and closing a closed channel panic: \<open>None\<close>.\<close>

definition chan_send :: "'a chan \<Rightarrow> 'a \<Rightarrow> 'a chan option" where
  "chan_send ch v = (if closed ch then None else Some (ch\<lparr>sent := sent ch @ [v]\<rparr>))"

definition chan_close :: "'a chan \<Rightarrow> 'a chan option" where
  "chan_close ch = (if closed ch then None else Some (ch\<lparr>closed := True\<rparr>))"

text \<open>
  The struct \<open>DAG\<close>. \<open>nodes\<close> is an association list because the program searches it
  by value (\<open>for id, n := range dag.nodes\<close>); the other maps are only read and written
  by key. Each id owns its node object: \<open>nodeMap\<close> holds the object itself, and the
  methods that mutate it write it back.
\<close>

record DAG =
  graph :: DirectedGraph
  nodes :: "(NodeID \<times> nat) list"
  nodeMap :: "NodeID \<rightharpoonup> node"
  inDegree :: "NodeID \<rightharpoonup> int"
  nodeStatus :: "NodeID \<rightharpoonup> NodeStatus"
  statusChan :: "NodeState chan"
  ioChan :: "NodeIO chan"
  maxConcurrent :: int

definition NewDAG :: "int \<Rightarrow> DAG" where
  "NewDAG m = \<lparr>graph = NewDirectedGraph, nodes = [], nodeMap = Map.empty,
               inDegree = Map.empty, nodeStatus = Map.empty,
               statusChan = make_chan, ioChan = make_chan, maxConcurrent = m\<rparr>"

text \<open>Reading a Go \<open>map[NodeID]int\<close> at a missing key gives 0.\<close>

definition deg :: "DAG \<Rightarrow> NodeID \<Rightarrow> int" where
  "deg d i = (case inDegree d i of None \<Rightarrow> 0 | Some k \<Rightarrow> k)"

definition AddNode :: "NodeID \<Rightarrow> node \<Rightarrow> DAG \<Rightarrow> DAG" where
  "AddNode i n d =
     (let k = NewNode (graph d) in
      d\<lparr>graph := AddNode_graph (graph d) k,
        nodes := AList.update i k (nodes d),
        nodeMap := (nodeMap d)(i \<mapsto> n),
        inDegree := (inDegree d)(i \<mapsto> 0),
        nodeStatus := (nodeStatus d)(i \<mapsto> Pending)\<rparr>)"

text \<open>
  A call of \<open>AddEdge\<close> returns nil, returns an error, or panics (inside \<open>SetEdge\<close>). The
  model gives the outcome and the graph store as the call leaves it.
\<close>

datatype outcome = Success | Failure error | Panic

definition AddEdge :: "NodeID \<Rightarrow> NodeID \<Rightarrow> DAG \<Rightarrow> outcome \<times> DAG" where
  "AddEdge from to d =
     (case map_of (nodes d) from of
        None \<Rightarrow> (Failure (NodeDoesNotExist from), d)
      | Some fromNode \<Rightarrow>
          (case map_of (nodes d) to of
             None \<Rightarrow> (Failure (NodeDoesNotExist to), d)
           | Some toNode \<Rightarrow>
               (case SetEdge (graph d) fromNode toNode of
                  None \<Rightarrow> (Panic, d)
                | Some g \<Rightarrow>
                    (Success, d\<lparr>graph := g, inDegree := (inDegree d)(to \<mapsto> deg d to + 1)\<rparr>))))"

text \<open>
  The id bound to a graph node: the search \<open>for id, n := range dag.nodes\<close>, which stops
  at the first id it finds. On a graph store built through the API a graph node is bound
  to at most one id, so the order of that loop over a Go map plays no part.
\<close>

definition idOf :: "DAG \<Rightarrow> nat \<Rightarrow> NodeID option" where
  "idOf d k = map_option fst (find (\<lambda>p. snd p = k) (nodes d))"

definition GetLeafNodes :: "DAG \<Rightarrow> NodeID list" where
  "GetLeafNodes d =
     concat (map (\<lambda>k. if From (graph d) k = [] then (case idOf d k of None \<Rightarrow> [] | Some i \<Rightarrow> [i]) else [])
                 (gnodes (graph d)))"

section \<open>The scheduler (Execute)\<close>

text \<open>
  \<open>topo.Sort\<close> returns the nodes of the graph in an order in which every edge goes
  forward, or an error when the graph has a cycle. Which of the admissible orders it
  returns is not fixed (it depends on the iteration order of a Go map), so the order is
  a choice of the run, checked by \<open>is_topo_order\<close>.
\<close>

fun pos :: "nat list \<Rightarrow> nat \<Rightarrow> nat" where
  "pos [] a = 0"
| "pos (x # xs) a = (if x = a then 0 else Suc (pos xs a))"

definition is_topo_order :: "DirectedGraph \<Rightarrow> nat list \<Rightarrow> bool" where
  "is_topo_order g xs \<longleftrightarrow>
     distinct xs \<and> set xs = set (gnodes g) \<and>
     (\<forall>e \<in> set (gedges g). pos xs (fst e) < pos xs (snd e))"

definition cyclic :: "DirectedGraph \<Rightarrow> bool" where
  "cyclic g \<longleftrightarrow> (\<exists>v \<in> set (gnodes g). (v, v) \<in> (set (gedges g))\<^sup>+)"

text \<open>
  \<open>Execute\<close> starts one goroutine per dispatched node (\<open>execNode\<close>) and runs the seeding
  loop, \<open>wg.Wait\<close> and the final collection itself. The model is an interleaving of
  atomic steps: a step is one access to shared state (a map of the DAG, the output
  table, the error cell, a channel, the semaphore, the wait group, a node object) or one
  critical section of \<open>mu\<close>. A task is at a program point \<open>pc\<close>, which also carries its
  local variables \<open>nodeInputs\<close> and \<open>nodeOutputs\<close>.
\<close>

datatype pc =
    Acquire
  | SetRunning
  | Assemble
  | Collect "nat list" "string list"
  | CallExecute "string list"
  | RecordErr error
  | SetError
  | CallGetOutputs "string list"
  | StoreOutputs "string list" "string list"
  | SetCompleted "string list" "string list"
  | NotifyIO "string list" "string list"
  | Release
  | Exit
  | Done

record task =
  tid :: NodeID
  tpc :: pc

type_synonym table = "NodeID \<rightharpoonup> string list"

text \<open>What \<open>Execute\<close> returns: \<open>(outputs, finalOutputs, err)\<close>, each possibly nil.\<close>

type_synonym result = "table option \<times> table option \<times> error option"

datatype mainpc =
    Sorting
  | Seed "nat list"
  | Wait
  | CloseStatus
  | CloseIO
  | Finish
  | Returned result
  | Panicked

text \<open>
  The state of one call of \<open>Execute\<close>. \<open>sem\<close> is the number of tokens in the semaphore
  channel, \<open>wg\<close> the counter of the wait group. \<open>errLog\<close> is a history variable: the
  errors in the order in which they were written to \<open>execErr\<close>; the program never
  reads it.
\<close>

record config =
  dag :: DAG
  inputs :: table
  outputs :: table
  execErr :: "error option"
  errLog :: "error list"
  sem :: nat
  wg :: int
  tasks :: "task list"
  mainpc :: mainpc

definition Execute_init :: "DAG \<Rightarrow> table \<Rightarrow> config" where
  "Execute_init d inp =
     \<lparr>dag = d, inputs = inp, outputs = Map.empty, execErr = None, errLog = [],
      sem = 0, wg = 0, tasks = [], mainpc = Sorting\<rparr>"

text \<open>
  \<open>updateNodeStatus\<close> writes the status, then sends the event. The result is the DAG
  after the call, or \<open>Inl\<close> of the DAG as the panic of the send leaves it.
\<close>

definition updateNodeStatus :: "NodeID \<Rightarrow> NodeStatus \<Rightarrow> DAG \<Rightarrow> DAG + DAG" where
  "updateNodeStatus i st d =
     (case chan_send (statusChan d) (NodeState i st) of
        None \<Rightarrow> Inl (d\<lparr>nodeStatus := (nodeStatus d)(i \<mapsto> st)\<rparr>)
      | Some ch \<Rightarrow> Inr (d\<lparr>nodeStatus := (nodeStatus d)(i \<mapsto> st), statusChan := ch\<rparr>))"

definition notifyNodeIO :: "NodeID \<Rightarrow> string list \<Rightarrow> string list \<Rightarrow> DAG \<Rightarrow> DAG option" where
  "notifyNodeIO i ins outs d =
     (case chan_send (ioChan d) (NodeIO i ins outs) of
        None \<Rightarrow> None
      | Some ch \<Rightarrow> Some (d\<lparr>ioChan := ch\<rparr>))"

text \<open>\<open>wg.Add(1); go execNode(ctx, id)\<close>\<close>

definition spawn :: "NodeID \<Rightarrow> config \<Rightarrow> config" where
  "spawn i c = c\<lparr>wg := wg c + 1, tasks := tasks c @ [\<lparr>tid = i, tpc = Acquire\<rparr>]\<rparr>"

definition setpc :: "nat \<Rightarrow> pc \<Rightarrow> config \<Rightarrow> config" where
  "setpc k p c = c\<lparr>tasks := (tasks c)[k := (tasks c ! k)\<lparr>tpc := p\<rparr>]\<rparr>"

definition crash :: "config \<Rightarrow> config" where
  "crash c = c\<lparr>mainpc := Panicked\<rparr>"

definition decrement :: "NodeID \<Rightarrow> config \<Rightarrow> config" where
  "decrement i c = c\<lparr>dag := (dag c)\<lparr>inDegree := (inDegree (dag c))(i \<mapsto> deg (dag c) i - 1)\<rparr>\<rparr>"

text \<open>
  The loop over the successors of a completed node, run as one critical section of
  \<open>mu\<close>: decrement the counter of each successor and start it when the counter is 0.
\<close>

fun release :: "nat list \<Rightarrow> config \<Rightarrow> config" where
  "release [] c = c"
| "release (k # ks) c =
     (case idOf (dag c) k of
        None \<Rightarrow> release ks c
      | Some toID \<Rightarrow>
          release ks (if deg (dag (decrement toID c)) toID = 0
                      then spawn toID (decrement toID c) else decrement toID c))"

definition setNode :: "NodeID \<Rightarrow> node \<Rightarrow> config \<Rightarrow> config" where
  "setNode i n c = c\<lparr>dag := (dag c)\<lparr>nodeMap := (nodeMap (dag c))(i \<mapsto> n)\<rparr>\<rparr>"

text \<open>
  One step of the task at index \<open>k\<close>, which runs node \<open>i\<close>. \<open>None\<close>: the task cannot move
  (it waits for the semaphore, or has ended, or \<open>ord\<close> is not an order of the neighbours
  that the step loops over). A nil dereference and a send on a closed channel panic,
  which ends the program. \<open>Assemble\<close> reads the caller's input of the node and the list
  of its predecessors, in the order \<open>ord\<close>; \<open>Collect\<close> reads the output table once per
  predecessor, outside \<open>mu\<close>, and ends with \<open>SetInputs\<close>. \<open>Release\<close> loops over the
  successors in the order \<open>ord\<close>. The other steps loop over no neighbours.
\<close>

fun task_step :: "nat list option \<Rightarrow> nat \<Rightarrow> NodeID \<Rightarrow> pc \<Rightarrow> config \<Rightarrow> config option" where
  "task_step ord k i Acquire c =
     (if int (sem c) < maxConcurrent (dag c)
      then Some (setpc k SetRunning (c\<lparr>sem := Suc (sem c)\<rparr>)) else None)"
| "task_step ord k i SetRunning c =
     (case updateNodeStatus i Running (dag c) of
        Inl d \<Rightarrow> Some (crash (c\<lparr>dag := d\<rparr>))
      | Inr d \<Rightarrow> Some (setpc k Assemble (c\<lparr>dag := d\<rparr>)))"
| "task_step ord k i Assemble c =
     (case map_of (nodes (dag c)) i of
        None \<Rightarrow> Some (crash c)
      | Some g \<Rightarrow>
          (case iterate ord (To (graph (dag c)) g) of
             None \<Rightarrow> None
           | Some gs \<Rightarrow>
               Some (setpc k (Collect gs
                       (case inputs c i of None \<Rightarrow> [] | Some input \<Rightarrow> input)) c)))"
| "task_step ord k i (Collect (g # gs) nodeInputs) c =
     Some (setpc k
       (Collect gs
          (case idOf (dag c) g of
             None \<Rightarrow> nodeInputs
           | Some fromID \<Rightarrow>
               (case outputs c fromID of
                  None \<Rightarrow> nodeInputs
                | Some output \<Rightarrow> nodeInputs @ output))) c)"
| "task_step ord k i (Collect [] nodeInputs) c =
     (case nodeMap (dag c) i of
        None \<Rightarrow> Some (crash c)
      | Some n \<Rightarrow> Some (setpc k (CallExecute nodeInputs) (setNode i (SetInputs n nodeInputs) c)))"
| "task_step ord k i (CallExecute nodeInputs) c =
     (case nodeMap (dag c) i of
        None \<Rightarrow> Some (crash c)
      | Some n \<Rightarrow>
          Some (setpc k
            (case fst (Execute_node n) of
               Some err \<Rightarrow> RecordErr err
             | None \<Rightarrow> CallGetOutputs nodeInputs)
            (setNode i (snd (Execute_node n)) c)))"
| "task_step ord k i (RecordErr err) c =
     Some (setpc k SetError (c\<lparr>execErr := Some err, errLog := errLog c @ [err]\<rparr>))"
| "task_step ord k i SetError c =
     (case updateNodeStatus i Error (dag c) of
        Inl d \<Rightarrow> Some (crash (c\<lparr>dag := d\<rparr>))
      | Inr d \<Rightarrow> Some (setpc k Exit (c\<lparr>dag := d\<rparr>)))"
| "task_step ord k i (CallGetOutputs nodeInputs) c =
     (case nodeMap (dag c) i of
        None \<Rightarrow> Some (crash c)
      | Some n \<Rightarrow> Some (setpc k (StoreOutputs nodeInputs (GetOutputs n)) c))"
| "task_step ord k i (StoreOutputs nodeInputs nodeOutputs) c =
     Some (setpc k (SetCompleted nodeInputs nodeOutputs)
             (c\<lparr>outputs := (outputs c)(i \<mapsto> nodeOutputs)\<rparr>))"
| "task_step ord k i (SetCompleted nodeInputs nodeOutputs) c =
     (case updateNodeStatus i Completed (dag c) of
        Inl d \<Rightarrow> Some (crash (c\<lparr>dag := d\<rparr>))
      | Inr d \<Rightarrow> Some (setpc k (NotifyIO nodeInputs nodeOutputs) (c\<lparr>dag := d\<rparr>)))"
| "task_step ord k i (NotifyIO nodeInputs nodeOutputs) c =
     (case notifyNodeIO i nodeInputs nodeOutputs (dag c) of
        None \<Rightarrow> Some (crash c)
      | Some d \<Rightarrow> Some (setpc k Release (c\<lparr>dag := d\<rparr>)))"
| "task_step ord k i Release c =
     (case map_of (nodes (dag c)) i of
        None \<Rightarrow> Some (crash c)
      | Some g \<Rightarrow>
          (case iterate ord (From (graph (dag c)) g) of
             None \<Rightarrow> None
           | Some gs \<Rightarrow> Some (setpc k Exit (release gs c))))"
| "task_step ord k i Exit c = Some (setpc k Done (c\<lparr>sem := sem c - 1, wg := wg c - 1\<rparr>))"
| "task_step ord k i Done c = None"

text \<open>
  One round of the seeding loop, for the graph node \<open>n\<close> of \<open>sorted\<close>: the inner loop
  over \<open>dag.nodes\<close> starts every id bound to \<open>n\<close> whose counter reads 0 now.
\<close>

fun seed :: "nat \<Rightarrow> (NodeID \<times> nat) list \<Rightarrow> config \<Rightarrow> config" where
  "seed n [] c = c"
| "seed n (p # ps) c =
     seed n ps (if snd p = n \<and> deg (dag c) (fst p) = 0 then spawn (fst p) c else c)"

text \<open>\<open>finalOutputs[id] = outputs[id]\<close> for each leaf; a missing key reads as nil.\<close>

fun collectFinal :: "NodeID list \<Rightarrow> table \<Rightarrow> table \<Rightarrow> table" where
  "collectFinal [] outs fin = fin"
| "collectFinal (i # is) outs fin =
     collectFinal is outs (fin(i \<mapsto> (case outs i of None \<Rightarrow> [] | Some v \<Rightarrow> v)))"

fun main_step :: "mainpc \<Rightarrow> config \<Rightarrow> config option" where
  "main_step Sorting c =
     (if cyclic (graph (dag c))
      then Some (c\<lparr>mainpc := Returned (None, None, Some Unorderable)\<rparr>) else None)"
| "main_step (Seed []) c = Some (c\<lparr>mainpc := Wait\<rparr>)"
| "main_step (Seed (n # ns)) c = Some ((seed n (nodes (dag c)) c)\<lparr>mainpc := Seed ns\<rparr>)"
| "main_step Wait c = (if wg c = 0 then Some (c\<lparr>mainpc := CloseStatus\<rparr>) else None)"
| "main_step CloseStatus c =
     (case chan_close (statusChan (dag c)) of
        None \<Rightarrow> Some (crash c)
      | Some ch \<Rightarrow> Some (c\<lparr>dag := (dag c)\<lparr>statusChan := ch\<rparr>, mainpc := CloseIO\<rparr>))"
| "main_step CloseIO c =
     (case chan_close (ioChan (dag c)) of
        None \<Rightarrow> Some (crash c)
      | Some ch \<Rightarrow> Some (c\<lparr>dag := (dag c)\<lparr>ioChan := ch\<rparr>, mainpc := Finish\<rparr>))"
| "main_step Finish c =
     (case execErr c of
        Some err \<Rightarrow> Some (c\<lparr>mainpc := Returned (None, None, Some err)\<rparr>)
      | None \<Rightarrow>
          Some (c\<lparr>mainpc := Returned (Some (outputs c),
                    Some (collectFinal (GetLeafNodes (dag c)) (outputs c) Map.empty), None)\<rparr>))"
| "main_step (Returned r) c = None"
| "main_step Panicked c = None"

text \<open>
  The moves of a run: \<open>SortOk xs\<close> is \<open>topo.Sort\<close> returning the order \<open>xs\<close> (followed by
  \<open>make(chan struct{}, maxConcurrent)\<close>, which panics on a negative size), \<open>Main\<close> is a
  step of \<open>Execute\<close> itself, \<open>Task k\<close> a step of the \<open>k\<close>-th goroutine in which a loop
  over neighbours meets them in the order of \<open>From\<close> and \<open>To\<close>, \<open>TaskIter k xs\<close> such a
  step in which the loop meets them in the order \<open>xs\<close>. Nothing moves once \<open>Execute\<close>
  has returned or the program has panicked.
\<close>

datatype action = SortOk "nat list" | Main | Task nat | TaskIter nat "nat list"

fun ended :: "mainpc \<Rightarrow> bool" where
  "ended (Returned r) = True"
| "ended Panicked = True"
| "ended p = False"

fun step :: "config \<Rightarrow> action \<Rightarrow> config option" where
  "step c (SortOk xs) =
     (case mainpc c of
        Sorting \<Rightarrow>
          (if is_topo_order (graph (dag c)) xs
           then Some (if maxConcurrent (dag c) < 0 then crash c else c\<lparr>mainpc := Seed xs\<rparr>)
           else None)
      | _ \<Rightarrow> None)"
| "step c Main = (if ended (mainpc c) then None else main_step (mainpc c) c)"
| "step c (Task k) =
     (if ended (mainpc c) \<or> length (tasks c) \<le> k then None
      else task_step None k (tid (tasks c ! k)) (tpc (tasks c ! k)) c)"
| "step c (TaskIter k xs) =
     (if ended (mainpc c) \<or> length (tasks c) \<le> k then None
      else task_step (Some xs) k (tid (tasks c ! k)) (tpc (tasks c ! k)) c)"

text \<open>A run under a schedule; \<open>None\<close> when the schedule asks for a move that is not possible.\<close>

fun exec :: "config \<Rightarrow> action list \<Rightarrow> config option" where
  "exec c [] = Some c"
| "exec c (a # as) = (case step c a of None \<Rightarrow> None | Some c' \<Rightarrow> exec c' as)"

text \<open>The graph stores that the API can build.\<close>

inductive built :: "DAG \<Rightarrow> bool" where
  built_new: "built (NewDAG m)"
| built_node: "built d \<Longrightarrow> built (AddNode i n d)"
| built_edge: "built d \<Longrightarrow> built (snd (AddEdge from to d))"

section \<open>Notions used in the statements\<close>

text \<open>An id is registered when \<open>dag.nodes\<close> has it as a key.\<close>

definition registered :: "DAG \<Rightarrow> NodeID \<Rightarrow> bool" where
  "registered d i \<longleftrightarrow> i \<in> fst ` set (nodes d)"

text \<open>The leaf ids: the ids bound to a graph node without outgoing edge.\<close>

definition leaves :: "DAG \<Rightarrow> NodeID set" where
  "leaves d = fst ` set (filter (\<lambda>p. From (graph d) (snd p) = []) (nodes d))"

text \<open>
  A task holds a slot of the semaphore from its \<open>Acquire\<close> step to its \<open>Exit\<close> step. It
  is \<open>in_run\<close> from the step that publishes \<open>Running\<close> to the step that publishes
  \<open>Completed\<close> or \<open>Error\<close>.
\<close>

fun holds :: "pc \<Rightarrow> bool" where
  "holds Acquire = False"
| "holds Done = False"
| "holds p = True"

fun in_run :: "pc \<Rightarrow> bool" where
  "in_run Assemble = True"
| "in_run (Collect gs xs) = True"
| "in_run (CallExecute xs) = True"
| "in_run (RecordErr e) = True"
| "in_run SetError = True"
| "in_run (CallGetOutputs xs) = True"
| "in_run (StoreOutputs xs ys) = True"
| "in_run (SetCompleted xs ys) = True"
| "in_run p = False"

definition holders :: "config \<Rightarrow> nat" where
  "holders c = length (filter (\<lambda>t. holds (tpc t)) (tasks c))"

definition running_nodes :: "config \<Rightarrow> NodeID set" where
  "running_nodes c = {i. nodeStatus (dag c) i = Some Running}"

text \<open>
  The invariant behind the concurrency bound: the tokens in the semaphore are the tasks
  that hold a slot, there are never more than \<open>maxConcurrent\<close> of them, and a node whose
  status is \<open>Running\<close> has a task that has published \<open>Running\<close> and not yet \<open>Completed\<close>
  or \<open>Error\<close> (or the program panicked in the send that publishes \<open>Running\<close>).
\<close>

definition slot_inv :: "config \<Rightarrow> bool" where
  "slot_inv c \<longleftrightarrow>
     holders c = sem c \<and> (sem c = 0 \<or> int (sem c) \<le> maxConcurrent (dag c)) \<and>
     (\<forall>i. nodeStatus (dag c) i = Some Running \<longrightarrow>
          (\<exists>t \<in> set (tasks c). tid t = i \<and>
               (in_run (tpc t) \<or> mainpc c = Panicked \<and> holds (tpc t))))"

definition run_witness :: "config \<Rightarrow> bool" where
  "run_witness c \<longleftrightarrow>
     (\<forall>i. nodeStatus (dag c) i = Some Running \<longrightarrow>
          (\<exists>t \<in> set (tasks c). tid t = i \<and> in_run (tpc t)))"

section \<open>Scenarios\<close>

text \<open>
  The processor and the LLM client of the repository's tests (\<open>strings.Join\<close> with a
  space, failing on no input; a client that prefixes "mock response: "), and a processor
  that always fails.
\<close>

fun Join :: "string list \<Rightarrow> string \<Rightarrow> string" where
  "Join [] sep = []"
| "Join [x] sep = x"
| "Join (x # y # ys) sep = x @ sep @ Join (y # ys) sep"

definition textProcessor :: "string list \<Rightarrow> error + string" where
  "textProcessor ins =
     (if length ins = 0 then Inl (External ''input must not be empty'')
      else Inr (Join ins '' ''))"

definition MockLLMClient :: "string \<Rightarrow> error + string" where
  "MockLLMClient prompt = Inr (''mock response: '' @ prompt)"

definition failing :: "string \<Rightarrow> string list \<Rightarrow> error + string" where
  "failing msg ins = Inl (External msg)"

text \<open>A run of \<open>Execute\<close> on a graph store, under a schedule.\<close>

definition run :: "DAG \<Rightarrow> table \<Rightarrow> action list \<Rightarrow> config option" where
  "run d inp sch = exec (Execute_init d inp) sch"


definition returned_error :: "config option \<Rightarrow> error option" where
  "returned_error r =
     (case r of Some c \<Rightarrow> (case mainpc c of Returned x \<Rightarrow> snd (snd x) | _ \<Rightarrow> None) | None \<Rightarrow> None)"

definition succeeded :: "config option \<Rightarrow> bool" where
  "succeeded r =
     (case r of
        Some c \<Rightarrow> (case mainpc c of Returned (Some outs, Some fin, None) \<Rightarrow> True | _ \<Rightarrow> False)
      | None \<Rightarrow> False)"

definition returned_outputs :: "config option \<Rightarrow> table" where
  "returned_outputs r =
     (case r of
        Some c \<Rightarrow>
          (case mainpc c of Returned x \<Rightarrow> (case fst x of Some m \<Rightarrow> m | None \<Rightarrow> Map.empty)
           | _ \<Rightarrow> Map.empty)
      | None \<Rightarrow> Map.empty)"

definition returned_final :: "config option \<Rightarrow> table" where
  "returned_final r =
     (case r of
        Some c \<Rightarrow>
          (case mainpc c of Returned x \<Rightarrow> (case fst (snd x) of Some m \<Rightarrow> m | None \<Rightarrow> Map.empty)
           | _ \<Rightarrow> Map.empty)
      | None \<Rightarrow> Map.empty)"

definition status_events :: "config option \<Rightarrow> NodeState list" where
  "status_events r = (case r of Some c \<Rightarrow> sent (statusChan (dag c)) | None \<Rightarrow> [])"

definition io_events :: "config option \<Rightarrow> NodeIO list" where
  "io_events r = (case r of Some c \<Rightarrow> sent (ioChan (dag c)) | None \<Rightarrow> [])"

definition streams_closed :: "config option \<Rightarrow> bool \<times> bool" where
  "streams_closed r =
     (case r of Some c \<Rightarrow> (closed (statusChan (dag c)), closed (ioChan (dag c))) | None \<Rightarrow> (False, False))"


text \<open>Two independent nodes that both fail, two slots.\<close>

definition dag_pair :: DAG where
  "dag_pair =
     AddNode ''b'' (NewTextNode ''b'' (failing ''second''))
       (AddNode ''a'' (NewTextNode ''a'' (failing ''first'')) (NewDAG 2))"

definition sched_both_running :: "action list" where
  "sched_both_running = [SortOk [0, 1], Main, Main, Main, Task 0, Task 0, Task 1, Task 1]"

text \<open>
  The first scenario of the repository's test: a text node feeding an LLM node, and a
  complete run of it.
\<close>

definition dag_text_llm :: DAG where
  "dag_text_llm =
     snd (AddEdge ''textNode'' ''llmNode''
       (AddNode ''llmNode'' (NewLLMNode ''llmNode'' MockLLMClient)
         (AddNode ''textNode'' (NewTextNode ''textNode'' textProcessor) (NewDAG 2))))"

definition inp_hello :: table where
  "inp_hello = [''textNode'' \<mapsto> [''hello'', ''world'']]"

definition sched_text_llm :: "action list" where
  "sched_text_llm =
     [SortOk [0, 1], Main, Main, Main] @ replicate 11 (Task 0) @ replicate 12 (Task 1)
     @ replicate 4 Main"

text \<open>\<open>AddEdge("a", "b")\<close> called twice: one edge in the graph, counter 2.\<close>

definition dag_dup :: DAG where
  "dag_dup =
     snd (AddEdge ''a'' ''b'' (snd (AddEdge ''a'' ''b''
       (AddNode ''b'' (NewTextNode ''b'' textProcessor)
         (AddNode ''a'' (NewTextNode ''a'' textProcessor) (NewDAG 2))))))"

definition sched_dup :: "action list" where
  "sched_dup = [SortOk [0, 1], Main, Main, Main] @ replicate 11 (Task 0) @ replicate 4 Main"

text \<open>A cycle through two nodes.\<close>

definition dag_cycle :: DAG where
  "dag_cycle =
     snd (AddEdge ''b'' ''a'' (snd (AddEdge ''a'' ''b''
       (AddNode ''b'' (NewTextNode ''b'' textProcessor)
         (AddNode ''a'' (NewTextNode ''a'' textProcessor) (NewDAG 2))))))"

text \<open>
  The chain \<open>a \<rightarrow> b\<close>. In \<open>sched_chain_race\<close> the task of \<open>a\<close> runs to its end, and so
  starts \<open>b\<close>, between the two rounds of the seeding loop; the second round then reads
  the counter of \<open>b\<close> as 0 and starts \<open>b\<close> again.
\<close>

definition dag_chain :: DAG where
  "dag_chain =
     snd (AddEdge ''a'' ''b''
       (AddNode ''b'' (NewTextNode ''b'' textProcessor)
         (AddNode ''a'' (NewTextNode ''a'' textProcessor) (NewDAG 1))))"

definition inp_a :: table where
  "inp_a = [''a'' \<mapsto> [''x'']]"

definition sched_chain_race :: "action list" where
  "sched_chain_race =
     [SortOk [0, 1], Main] @ replicate 11 (Task 0) @ [Main, Main]
     @ replicate 12 (Task 1) @ replicate 12 (Task 2) @ replicate 4 Main"

text \<open>
  \<open>w \<rightarrow> z \<rightarrow> y\<close> and \<open>x \<rightarrow> y\<close>. In both schedules \<open>z\<close> is started twice as above, and
  both tasks of \<open>z\<close> decrement the counter of \<open>y\<close>, which starts \<open>y\<close> without \<open>x\<close>.
\<close>

definition dag_join :: "(string list \<Rightarrow> error + string) \<Rightarrow> DAG" where
  "dag_join px =
     snd (AddEdge ''x'' ''y'' (snd (AddEdge ''z'' ''y'' (snd (AddEdge ''w'' ''z''
       (AddNode ''y'' (NewTextNode ''y'' textProcessor)
         (AddNode ''x'' (NewTextNode ''x'' px)
           (AddNode ''z'' (NewTextNode ''z'' textProcessor)
             (AddNode ''w'' (NewTextNode ''w'' textProcessor) (NewDAG 1))))))))))"

definition inp_wx :: table where
  "inp_wx = [''w'' \<mapsto> [''W''], ''x'' \<mapsto> [''X'']]"

text \<open>\<open>x\<close> fails first; then the two tasks of \<open>z\<close> run, and \<open>y\<close> after them.\<close>

definition sched_join_failed :: "action list" where
  "sched_join_failed =
     [SortOk [0, 1, 2, 3], Main] @ replicate 11 (Task 0) @ [Main, Main, Main, Main]
     @ replicate 8 (Task 3) @ replicate 12 (Task 1) @ replicate 12 (Task 2)
     @ replicate 13 (Task 4) @ replicate 4 Main"

text \<open>\<open>x\<close> succeeds, but only after \<open>y\<close> has run.\<close>

definition sched_join_late :: "action list" where
  "sched_join_late =
     [SortOk [0, 1, 2, 3], Main] @ replicate 11 (Task 0) @ [Main, Main, Main, Main]
     @ replicate 12 (Task 1) @ replicate 12 (Task 2) @ replicate 13 (Task 4)
     @ replicate 11 (Task 3) @ replicate 4 Main"

text \<open>As \<open>sched_join_late\<close>, but the loop of \<open>y\<close> over its predecessors meets \<open>x\<close> before \<open>z\<close>.\<close>

definition sched_join_late_rev :: "action list" where
  "sched_join_late_rev =
     [SortOk [0, 1, 2, 3], Main] @ replicate 11 (Task 0) @ [Main, Main, Main, Main]
     @ replicate 12 (Task 1) @ replicate 12 (Task 2)
     @ [Task 4, Task 4, TaskIter 4 [2, 1]] @ replicate 10 (Task 4)
     @ replicate 11 (Task 3) @ replicate 4 Main"

text \<open>
  A run of the same graph in which the seeding loop ends before any task moves: \<open>w\<close>,
  \<open>x\<close>, \<open>z\<close> and \<open>y\<close> run one after the other, and \<open>a\<close> is the step of \<open>y\<close> that loops
  over its predecessors.
\<close>

definition sched_join_orderly :: "action \<Rightarrow> action list" where
  "sched_join_orderly a =
     [SortOk [0, 1, 2, 3], Main, Main, Main, Main, Main]
     @ replicate 11 (Task 0) @ replicate 11 (Task 1) @ replicate 12 (Task 2)
     @ [Task 3, Task 3, a] @ replicate 10 (Task 3) @ replicate 4 Main"

section \<open>Invariants of a run\<close>



text \<open>
  What the API guarantees of a graph store: every id is bound to a graph node of its own,
  the bound nodes are nodes of the graph, and the node numbers are below their count
  (so that the next number is new).
\<close>

definition wf_dag :: "DAG \<Rightarrow> bool" where
  "wf_dag d \<longleftrightarrow>
     distinct (map snd (nodes d)) \<and> snd ` set (nodes d) \<subseteq> set (gnodes (graph d)) \<and>
     (\<forall>k \<in> set (gnodes (graph d)). k < length (gnodes (graph d)))"

text \<open>The final table that a successful call returns is the one collected from the leaves.\<close>

definition fin_inv :: "config \<Rightarrow> bool" where
  "fin_inv c \<longleftrightarrow>
     (\<forall>outs fin e. mainpc c = Returned (Some outs, Some fin, e) \<longrightarrow>
        fin = collectFinal (GetLeafNodes (dag c)) outs Map.empty)"

text \<open>
  \<open>Execute\<close> closes the status channel, then the I/O channel, then returns; the return
  of the cycle error comes before all of that.
\<close>

definition close_inv :: "config \<Rightarrow> bool" where
  "close_inv c \<longleftrightarrow>
     (mainpc c = CloseIO \<longrightarrow> closed (statusChan (dag c))) \<and>
     (mainpc c = Finish \<longrightarrow> closed (statusChan (dag c)) \<and> closed (ioChan (dag c))) \<and>
     (\<forall>r. mainpc c = Returned r \<longrightarrow>
        closed (statusChan (dag c)) \<and> closed (ioChan (dag c)) \<or>
        cyclic (graph (dag c)) \<and> r = (None, None, Some Unorderable))"

text \<open>
  A schedule is orderly when no task moves while \<open>Execute\<close> is in its seeding loop: the
  loop then reads the counters as they were when \<open>Execute\<close> was called.
\<close>

fun seeding :: "mainpc \<Rightarrow> bool" where
  "seeding (Seed ns) = True"
| "seeding p = False"

fun is_Task :: "action \<Rightarrow> bool" where
  "is_Task (Task k) = True"
| "is_Task (TaskIter k xs) = True"
| "is_Task a = False"

fun orderly :: "config \<Rightarrow> action list \<Rightarrow> bool" where
  "orderly c [] = True"
| "orderly c (a # as) =
     (\<not> (is_Task a \<and> seeding (mainpc c)) \<and>
      (case step c a of None \<Rightarrow> True | Some c' \<Rightarrow> orderly c' as))"

text \<open>The statuses published for a node, in the order of their publication.\<close>

fun events_of :: "NodeID \<Rightarrow> NodeState list \<Rightarrow> NodeStatus list" where
  "events_of i [] = []"
| "events_of i (NodeState j st # es) = (if j = i then st # events_of i es else events_of i es)"

text \<open>What a task has published when it is at a program point.\<close>

fun log_ok :: "pc \<Rightarrow> NodeStatus list \<Rightarrow> bool" where
  "log_ok Acquire l = (l = [])"
| "log_ok SetRunning l = (l = [])"
| "log_ok (NotifyIO xs ys) l = (l = [Running, Completed])"
| "log_ok Release l = (l = [Running, Completed])"
| "log_ok Exit l = (l = [Running, Completed] \<or> l = [Running, Error])"
| "log_ok Done l = (l = [Running, Completed] \<or> l = [Running, Error])"
| "log_ok p l = (l = [Running])"

text \<open>
  The invariant of orderly runs: every node has at most one task, the counter of a node
  that has a task is not positive, the nodes that the seeding loop has still to visit
  have no task, and the events published for a node are those of its task.
\<close>

definition task_inv :: "DAG \<Rightarrow> config \<Rightarrow> bool" where
  "task_inv d c \<longleftrightarrow>
     nodes (dag c) = nodes d \<and> distinct (map tid (tasks c)) \<and>
     (\<forall>t \<in> set (tasks c). deg (dag c) (tid t) \<le> 0 \<and> tid t \<in> fst ` set (nodes d)
        \<and> log_ok (tpc t) (events_of (tid t) (sent (statusChan (dag c))))) \<and>
     (\<forall>i. i \<notin> tid ` set (tasks c) \<longrightarrow> events_of i (sent (statusChan (dag c))) = [])"

definition seed_inv :: "DAG \<Rightarrow> config \<Rightarrow> bool" where
  "seed_inv d c \<longleftrightarrow>
     graph (dag c) = graph d \<and> (mainpc c = Sorting \<longrightarrow> tasks c = []) \<and>
     (\<forall>ns. mainpc c = Seed ns \<longrightarrow>
        distinct ns \<and> (\<forall>t \<in> set (tasks c). \<forall>m. (tid t, m) \<in> set (nodes d) \<longrightarrow> m \<notin> set ns))"

definition once_inv :: "DAG \<Rightarrow> config \<Rightarrow> bool" where
  "once_inv d c \<longleftrightarrow> task_inv d c \<and> seed_inv d c"

text \<open>
  The accounting of the counters. A node has released its successors when its task has
  run the loop over them: the task is at its exit or has ended, and it has published
  \<open>Completed\<close>. The counter of a node is its counter at the call minus its incoming
  edges from nodes that have released; and a node without a task has the status it had
  at the call.
\<close>

fun is_exit :: "pc \<Rightarrow> bool" where
  "is_exit Exit = True"
| "is_exit Done = True"
| "is_exit p = False"

definition released_ids :: "config \<Rightarrow> NodeID set" where
  "released_ids c =
     {tid t | t. t \<in> set (tasks c) \<and> is_exit (tpc t) \<and>
        events_of (tid t) (sent (statusChan (dag c))) = [Running, Completed]}"

definition released_node :: "DAG \<Rightarrow> config \<Rightarrow> nat \<Rightarrow> bool" where
  "released_node d c u \<longleftrightarrow> (\<exists>p \<in> released_ids c. (p, u) \<in> set (nodes d))"

definition count_inv :: "DAG \<Rightarrow> config \<Rightarrow> bool" where
  "count_inv d c \<longleftrightarrow>
     (\<forall>i. deg (dag c) i =
          deg d i - int (length (filter (\<lambda>e. idOf d (snd e) = Some i \<and> released_node d c (fst e))
                                        (gedges (graph d))))) \<and>
     (\<forall>i. i \<notin> tid ` set (tasks c) \<longrightarrow> nodeStatus (dag c) i = nodeStatus d i)"

text \<open>
  The inputs of a node as the scheduler assembles them: the caller's input of the node,
  followed by what the output table holds for each predecessor, in the order in which
  the loop over \<open>To\<close> meets them.
  A task that is collecting has done so for the predecessors it has already visited, a
  task that has called \<open>SetInputs\<close> for all of them; and the output table has an entry
  for every node that has published \<open>Completed\<close>.
\<close>

definition initial :: "table \<Rightarrow> NodeID \<Rightarrow> string list" where
  "initial inp i = (case inp i of None \<Rightarrow> [] | Some input \<Rightarrow> input)"

definition contrib :: "DAG \<Rightarrow> table \<Rightarrow> nat \<Rightarrow> string list" where
  "contrib d outs w =
     (case idOf d w of
        None \<Rightarrow> []
      | Some p \<Rightarrow> (case outs p of None \<Rightarrow> [] | Some output \<Rightarrow> output))"

definition assembled :: "DAG \<Rightarrow> table \<Rightarrow> table \<Rightarrow> NodeID \<Rightarrow> nat list \<Rightarrow> string list \<Rightarrow> bool" where
  "assembled d inp outs i gs acc \<longleftrightarrow>
     (\<exists>v visited. (i, v) \<in> set (nodes d) \<and> mset (To (graph d) v) = mset (visited @ gs) \<and>
        acc = initial inp i @ concat (map (contrib d outs) visited))"

fun collect_ok :: "DAG \<Rightarrow> table \<Rightarrow> table \<Rightarrow> NodeID \<Rightarrow> pc \<Rightarrow> bool" where
  "collect_ok d inp outs i (Collect gs acc) = assembled d inp outs i gs acc"
| "collect_ok d inp outs i (CallExecute ins) = assembled d inp outs i [] ins"
| "collect_ok d inp outs i p = True"

definition io_inv :: "DAG \<Rightarrow> table \<Rightarrow> config \<Rightarrow> bool" where
  "io_inv d inp c \<longleftrightarrow>
     inputs c = inp \<and>
     (\<forall>t \<in> set (tasks c). collect_ok d inp (outputs c) (tid t) (tpc t) \<and>
        (\<forall>xs ys. tpc t = SetCompleted xs ys \<longrightarrow> outputs c (tid t) \<noteq> None)) \<and>
     (\<forall>i. events_of i (sent (statusChan (dag c))) = [Running, Completed] \<longrightarrow> outputs c i \<noteq> None)"

section \<open>The node and graph-store operations\<close>

text \<open>
  Claim C8. \<open>LLMNode.Execute\<close> on any stored input sequence: it fails with the count
  error when the sequence does not have exactly one element, with the empty-input error
  when that element is the empty string; otherwise it calls the client with that element
  and, when the client succeeds, stores the one-element output sequence of the response;
  when the client fails it returns the client's error unchanged and keeps the stored
  outputs as they were. The stored inputs are never touched.
\<close>

theorem LLMNode_Execute_contract:
  "fst (Execute_node (SetInputs (LLMNode name old outs cl) ins)) =
     (if length ins \<noteq> 1 then Some (InputCount (length ins))
      else if hd ins = [] then Some InputEmpty
      else (case cl (hd ins) of Inl err \<Rightarrow> Some err | Inr response \<Rightarrow> None))
   \<and> GetOutputs (snd (Execute_node (SetInputs (LLMNode name old outs cl) ins))) =
     (if length ins = 1 \<and> hd ins \<noteq> []
      then (case cl (hd ins) of Inl err \<Rightarrow> outs | Inr response \<Rightarrow> [response])
      else outs)
   \<and> GetInputs (snd (Execute_node (SetInputs (LLMNode name old outs cl) ins))) = ins"
  by (simp split: sum.splits)

lemma deg_upd: "deg (d\<lparr>graph := g, inDegree := (inDegree d)(t \<mapsto> v)\<rparr>) j = (if j = t then v else deg d j)"
  by (simp add: deg_def)

lemma registered_map_of: "registered d i \<longleftrightarrow> map_of (nodes d) i \<noteq> None"
  by (simp add: registered_def map_of_eq_None_iff)

lemma AddEdge_missing_from:
  "map_of (nodes d) from = None \<Longrightarrow> AddEdge from to d = (Failure (NodeDoesNotExist from), d)"
  by (simp add: AddEdge_def)

lemma AddEdge_missing_to:
  "map_of (nodes d) from = Some u \<Longrightarrow> map_of (nodes d) to = None \<Longrightarrow>
   AddEdge from to d = (Failure (NodeDoesNotExist to), d)"
  by (simp add: AddEdge_def)

lemma AddEdge_self:
  "map_of (nodes d) from = Some u \<Longrightarrow> map_of (nodes d) to = Some u \<Longrightarrow>
   AddEdge from to d = (Panic, d)"
  by (simp add: AddEdge_def SetEdge_def)

lemma AddEdge_ok:
  "map_of (nodes d) from = Some u \<Longrightarrow> map_of (nodes d) to = Some v \<Longrightarrow> u \<noteq> v \<Longrightarrow>
   AddEdge from to d =
     (Success, d\<lparr>graph := (graph d)\<lparr>gnodes := addIfMissing (addIfMissing (gnodes (graph d)) u) v,
                     gedges := (if (u, v) \<in> set (gedges (graph d)) then gedges (graph d)
                                else gedges (graph d) @ [(u, v)])\<rparr>,
                  inDegree := (inDegree d)(to \<mapsto> deg d to + 1)\<rparr>)"
  by (simp add: AddEdge_def SetEdge_def)

section \<open>Runs of the scheduler\<close>

subsection \<open>Runs\<close>

lemma exec_append: "exec c (as @ bs) = (case exec c as of None \<Rightarrow> None | Some c' \<Rightarrow> exec c' bs)"
  by (induction as arbitrary: c) (auto split: option.splits)

lemma exec_invariant:
  assumes "exec c sch = Some c'" and "P c"
    and "\<And>c a c'. P c \<Longrightarrow> step c a = Some c' \<Longrightarrow> P c'"
  shows "P c'"
  using assms(1,2)
proof (induction sch arbitrary: c)
  case Nil
  then show ?case by simp
next
  case (Cons a sch)
  from Cons.prems(1) obtain c1 where s: "step c a = Some c1" and e: "exec c1 sch = Some c'"
    by (auto split: option.splits)
  from assms(3)[OF Cons.prems(2) s] have "P c1" .
  from Cons.IH[OF e this] show ?case .
qed

subsection \<open>What the helpers leave alone\<close>

lemma release_frame:
  "graph (dag (release ks c)) = graph (dag c) \<and> nodes (dag (release ks c)) = nodes (dag c)
   \<and> nodeMap (dag (release ks c)) = nodeMap (dag c)
   \<and> nodeStatus (dag (release ks c)) = nodeStatus (dag c)
   \<and> statusChan (dag (release ks c)) = statusChan (dag c)
   \<and> ioChan (dag (release ks c)) = ioChan (dag c)
   \<and> maxConcurrent (dag (release ks c)) = maxConcurrent (dag c)
   \<and> inputs (release ks c) = inputs c \<and> outputs (release ks c) = outputs c
   \<and> execErr (release ks c) = execErr c \<and> errLog (release ks c) = errLog c
   \<and> sem (release ks c) = sem c \<and> mainpc (release ks c) = mainpc c"
proof (induction ks arbitrary: c)
  case Nil
  then show ?case by simp
next
  case (Cons k ks)
  show ?case
  proof (cases "idOf (dag c) k")
    case None
    then show ?thesis using Cons.IH[of c] by simp
  next
    case (Some i)
    then show ?thesis
      using Cons.IH[of "spawn i (decrement i c)"] Cons.IH[of "decrement i c"]
      by (simp add: spawn_def decrement_def)
  qed
qed

lemma release_tasks:
  "\<exists>ts. tasks (release ks c) = tasks c @ ts \<and> (\<forall>t \<in> set ts. tpc t = Acquire)"
proof (induction ks arbitrary: c)
  case Nil
  then show ?case by simp
next
  case (Cons k ks)
  show ?case
  proof (cases "idOf (dag c) k")
    case None
    then show ?thesis using Cons.IH[of c] by simp
  next
    case (Some i)
    show ?thesis
    proof (cases "deg (dag (decrement i c)) i = 0")
      case True
      from Cons.IH[of "spawn i (decrement i c)"] obtain ts where
        "tasks (release ks (spawn i (decrement i c))) = tasks (spawn i (decrement i c)) @ ts"
        "\<forall>t \<in> set ts. tpc t = Acquire" by blast
      then have "tasks (release (k # ks) c) = tasks c @ (\<lparr>tid = i, tpc = Acquire\<rparr> # ts)
                 \<and> (\<forall>t \<in> set (\<lparr>tid = i, tpc = Acquire\<rparr> # ts). tpc t = Acquire)"
        using Some True by (simp add: spawn_def decrement_def)
      then show ?thesis by blast
    next
      case False
      from Cons.IH[of "decrement i c"] obtain ts where
        "tasks (release ks (decrement i c)) = tasks (decrement i c) @ ts"
        "\<forall>t \<in> set ts. tpc t = Acquire" by blast
      then have "tasks (release (k # ks) c) = tasks c @ ts \<and> (\<forall>t \<in> set ts. tpc t = Acquire)"
        using Some False by (simp add: decrement_def)
      then show ?thesis by blast
    qed
  qed
qed

lemma seed_frame:
  "dag (seed n ps c) = dag c \<and> inputs (seed n ps c) = inputs c \<and> outputs (seed n ps c) = outputs c
   \<and> execErr (seed n ps c) = execErr c \<and> errLog (seed n ps c) = errLog c
   \<and> sem (seed n ps c) = sem c \<and> mainpc (seed n ps c) = mainpc c"
proof (induction ps arbitrary: c)
  case Nil
  then show ?case by simp
next
  case (Cons p ps)
  show ?case
    using Cons.IH[of "spawn (fst p) c"] Cons.IH[of c] by (simp add: spawn_def)
qed

lemma seed_tasks:
  "\<exists>ts. tasks (seed n ps c) = tasks c @ ts \<and> (\<forall>t \<in> set ts. tpc t = Acquire)"
proof (induction ps arbitrary: c)
  case Nil
  then show ?case by simp
next
  case (Cons p ps)
  show ?case
  proof (cases "snd p = n \<and> deg (dag c) (fst p) = 0")
    case True
    from Cons.IH[of "spawn (fst p) c"] obtain ts where
      "tasks (seed n ps (spawn (fst p) c)) = tasks (spawn (fst p) c) @ ts"
      "\<forall>t \<in> set ts. tpc t = Acquire" by blast
    then have "tasks (seed n (p # ps) c) = tasks c @ (\<lparr>tid = fst p, tpc = Acquire\<rparr> # ts)
               \<and> (\<forall>t \<in> set (\<lparr>tid = fst p, tpc = Acquire\<rparr> # ts). tpc t = Acquire)"
      using True by (simp add: spawn_def)
    then show ?thesis by blast
  next
    case False
    then show ?thesis using Cons.IH[of c] by auto
  qed
qed

subsection \<open>The order of a loop over neighbours\<close>

lemma iterate_Some: "iterate ord ys = Some gs \<Longrightarrow> mset gs = mset ys"
  by (cases ord) (auto split: if_splits)

lemma mset_filter_length: "mset xs = mset ys \<Longrightarrow> length (filter P xs) = length (filter P ys)"
  by (metis mset_filter size_mset)

section \<open>The concurrency bound\<close>

lemma count_update:
  "k < length xs \<Longrightarrow>
   length (filter P (xs[k := y])) + (if P (xs ! k) then 1 else 0) =
   length (filter P xs) + (if P y then 1 else 0)"
proof (induction xs arbitrary: k)
  case Nil
  then show ?case by simp
next
  case (Cons x xs)
  show ?case
  proof (cases k)
    case 0
    then show ?thesis by simp
  next
    case (Suc j)
    with Cons.prems have "j < length xs" by simp
    from Cons.IH[OF this] Suc show ?thesis by simp
  qed
qed

lemma holders_fields [simp]:
  "holders (c\<lparr>dag := d\<rparr>) = holders c" "holders (c\<lparr>sem := s\<rparr>) = holders c"
  "holders (c\<lparr>wg := w\<rparr>) = holders c" "holders (c\<lparr>outputs := m\<rparr>) = holders c"
  "holders (c\<lparr>execErr := e\<rparr>) = holders c" "holders (c\<lparr>errLog := l\<rparr>) = holders c"
  "holders (c\<lparr>mainpc := q\<rparr>) = holders c" "holders (crash c) = holders c"
  "holders (setNode i n c) = holders c"
  by (simp_all add: holders_def crash_def setNode_def)

lemma holders_setpc:
  "k < length (tasks c) \<Longrightarrow>
   holders (setpc k p c) + (if holds (tpc (tasks c ! k)) then 1 else 0) =
   holders c + (if holds p then 1 else 0)"
  using count_update[of k "tasks c" "\<lambda>t. holds (tpc t)" "(tasks c ! k)\<lparr>tpc := p\<rparr>"]
  by (simp add: holders_def setpc_def)

lemma holders_setpc_same:
  "k < length (tasks c) \<Longrightarrow> holds (tpc (tasks c ! k)) = holds p \<Longrightarrow>
   holders (setpc k p c) = holders c"
  using holders_setpc[of k c p] by simp

lemma holders_append_Acquire:
  "\<forall>t \<in> set ts. tpc t = Acquire \<Longrightarrow> length (filter (\<lambda>t. holds (tpc t)) (xs @ ts)) = length (filter (\<lambda>t. holds (tpc t)) xs)"
  by (induction ts) auto

lemma holders_release: "holders (release ks c) = holders c"
  using release_tasks[of ks c] by (auto simp: holders_def holders_append_Acquire)

lemma holders_seed: "holders (seed n ps c) = holders c"
  using seed_tasks[of n ps c] by (auto simp: holders_def holders_append_Acquire)

lemma setpc_fields [simp]:
  "dag (setpc k p c) = dag c" "sem (setpc k p c) = sem c" "mainpc (setpc k p c) = mainpc c"
  "execErr (setpc k p c) = execErr c" "errLog (setpc k p c) = errLog c"
  "outputs (setpc k p c) = outputs c" "inputs (setpc k p c) = inputs c" "wg (setpc k p c) = wg c"
  "length (tasks (setpc k p c)) = length (tasks c)"
  by (simp_all add: setpc_def)

lemma release_length: "length (tasks c) \<le> length (tasks (release ks c))"
  using release_tasks[of ks c] by auto

lemma release_nth: "k < length (tasks c) \<Longrightarrow> tasks (release ks c) ! k = tasks c ! k"
  using release_tasks[of ks c] by (auto simp: nth_append)

lemma other_fields [simp]:
  "tasks (crash c) = tasks c" "sem (crash c) = sem c" "dag (crash c) = dag c"
  "mainpc (crash c) = Panicked"
  "tasks (setNode i n c) = tasks c" "sem (setNode i n c) = sem c"
  "mainpc (setNode i n c) = mainpc c"
  "maxConcurrent (dag (setNode i n c)) = maxConcurrent (dag c)"
  "nodeStatus (dag (setNode i n c)) = nodeStatus (dag c)"
  by (simp_all add: crash_def setNode_def)

lemma updateNodeStatus_Inl:
  "updateNodeStatus i st d = Inl d' \<Longrightarrow>
   d' = d\<lparr>nodeStatus := (nodeStatus d)(i \<mapsto> st)\<rparr> \<and> closed (statusChan d)"
  by (auto simp: updateNodeStatus_def chan_send_def split: if_splits)

lemma updateNodeStatus_Inr:
  "updateNodeStatus i st d = Inr d' \<Longrightarrow>
   d' = d\<lparr>nodeStatus := (nodeStatus d)(i \<mapsto> st),
          statusChan := (statusChan d)\<lparr>sent := sent (statusChan d) @ [NodeState i st]\<rparr>\<rparr>
   \<and> \<not> closed (statusChan d)"
  by (auto simp: updateNodeStatus_def chan_send_def split: if_splits)

lemma notifyNodeIO_Some:
  "notifyNodeIO i xs ys d = Some d' \<Longrightarrow>
   d' = d\<lparr>ioChan := (ioChan d)\<lparr>sent := sent (ioChan d) @ [NodeIO i xs ys]\<rparr>\<rparr>
   \<and> \<not> closed (ioChan d)"
  by (auto simp: notifyNodeIO_def chan_send_def split: if_splits)

text \<open>A step that is neither \<open>Acquire\<close> nor \<open>Exit\<close> leaves the semaphore alone.\<close>

lemma task_step_keeps_slots:
  assumes "task_step ord k i p c = Some c'" and "k < length (tasks c)" and "tpc (tasks c ! k) = p"
    and "tid (tasks c ! k) = i" and "p \<noteq> Acquire" and "p \<noteq> Exit"
  shows "holders c' = holders c \<and> sem c' = sem c \<and> maxConcurrent (dag c') = maxConcurrent (dag c)"
proof (cases p)
  case (Collect gs xs)
  with assms show ?thesis
    by (cases gs) (auto simp: holders_setpc_same split: option.splits)
next
  case Release
  show ?thesis
  proof (cases "map_of (nodes (dag c)) i")
    case None
    with Release assms show ?thesis by auto
  next
    case (Some g)
    from Release Some assms(1) obtain gs where c': "c' = setpc k Exit (release gs c)"
      by (auto split: option.splits)
    let ?r = "release gs c"
    have k: "k < length (tasks ?r)" using assms(2) release_length[of c] by (meson less_le_trans)
    have "tpc (tasks ?r ! k) = Release" using release_nth[OF assms(2)] assms(3) Release by simp
    with holders_setpc_same[OF k, of Exit] have "holders c' = holders ?r" by (simp add: c')
    then show ?thesis by (simp add: c' holders_release release_frame)
  qed
qed (use assms in \<open>auto simp: holders_setpc_same
        dest!: notifyNodeIO_Some updateNodeStatus_Inl updateNodeStatus_Inr
        split: option.splits sum.splits\<close>)

lemma task_step_slots:
  assumes "task_step ord k i p c = Some c'" and "k < length (tasks c)" and "tpc (tasks c ! k) = p"
    and "tid (tasks c ! k) = i"
    and "holders c = sem c" and "sem c = 0 \<or> int (sem c) \<le> maxConcurrent (dag c)"
  shows "holders c' = sem c' \<and> (sem c' = 0 \<or> int (sem c') \<le> maxConcurrent (dag c'))"
proof -
  consider "p = Acquire" | "p = Exit" | "p \<noteq> Acquire" "p \<noteq> Exit" by blast
  then show ?thesis
  proof cases
    case 1
    with assms(1) have c': "c' = setpc k SetRunning (c\<lparr>sem := Suc (sem c)\<rparr>)"
      and lt: "int (sem c) < maxConcurrent (dag c)" by (auto split: if_splits)
    from holders_setpc[of k "c\<lparr>sem := Suc (sem c)\<rparr>" SetRunning] assms(2,3) 1
    have "holders c' = holders c + 1" by (simp add: c')
    with assms(5) lt show ?thesis by (simp add: c')
  next
    case 2
    with assms(1) have c': "c' = setpc k Done (c\<lparr>sem := sem c - 1, wg := wg c - 1\<rparr>)" by simp
    from holders_setpc[of k "c\<lparr>sem := sem c - 1, wg := wg c - 1\<rparr>" Done] assms(2,3) 2
    have "holders c' + 1 = holders c" by (simp add: c')
    with assms(5,6) show ?thesis by (auto simp: c')
  next
    case 3
    from task_step_keeps_slots[OF assms(1-4) 3] assms(5,6) show ?thesis by simp
  qed
qed

lemma setpc_nth:
  "k < length (tasks c) \<Longrightarrow>
   tasks (setpc k p c) ! m = (if m = k then (tasks c ! k)\<lparr>tpc := p\<rparr> else tasks c ! m)"
  by (simp add: setpc_def)

lemma witness_other:
  assumes "t \<in> set (tasks c)" and "tid t \<noteq> tid (tasks c ! k)"
  shows "t \<in> set (tasks (setpc k p c))"
proof -
  from assms(1) obtain m where m: "m < length (tasks c)" "tasks c ! m = t"
    by (auto simp: in_set_conv_nth)
  with assms(2) have "m \<noteq> k" by auto
  with m have "tasks (setpc k p c) ! m = t" "m < length (tasks (setpc k p c))"
    by (simp_all add: setpc_def)
  then show ?thesis by (metis nth_mem)
qed

lemma witness_moved:
  assumes "t \<in> set (tasks c)" and "k < length (tasks c)"
  shows "\<exists>t' \<in> set (tasks (setpc k p c)). tid t' = tid t \<and> (tpc t' = tpc t \<or> t = tasks c ! k \<and> tpc t' = p)"
proof -
  from assms(1) obtain m where m: "m < length (tasks c)" "tasks c ! m = t"
    by (auto simp: in_set_conv_nth)
  have len: "m < length (tasks (setpc k p c))" using m by simp
  have "tid (tasks (setpc k p c) ! m) = tid t \<and>
        (tpc (tasks (setpc k p c) ! m) = tpc t \<or> t = tasks c ! k \<and> tpc (tasks (setpc k p c) ! m) = p)"
    using m assms(2) by (auto simp: setpc_nth)
  with len show ?thesis by (metis nth_mem)
qed

lemma witness_self:
  assumes "k < length (tasks c)"
  shows "\<exists>t \<in> set (tasks (setpc k p c)). tid t = tid (tasks c ! k) \<and> tpc t = p"
proof -
  have "k < length (tasks (setpc k p c))" using assms by simp
  moreover have "tid (tasks (setpc k p c) ! k) = tid (tasks c ! k) \<and> tpc (tasks (setpc k p c) ! k) = p"
    using assms by (simp add: setpc_nth)
  ultimately show ?thesis by (metis nth_mem)
qed

text \<open>A step of task \<open>k\<close> that keeps the statuses and does not leave \<open>in_run\<close>.\<close>

lemma run_witness_keep:
  assumes "run_witness c" and "k < length (tasks c)"
    and "in_run (tpc (tasks c ! k)) \<longrightarrow> in_run p'"
    and "nodeStatus (dag c1) = nodeStatus (dag c)" and "tasks c1 = tasks c @ ts"
  shows "run_witness (setpc k p' c1)"
  unfolding run_witness_def
proof (intro allI impI)
  fix i assume "nodeStatus (dag (setpc k p' c1)) i = Some Running"
  with assms(4) have "nodeStatus (dag c) i = Some Running" by simp
  with assms(1) obtain t where t: "t \<in> set (tasks c)" "tid t = i" "in_run (tpc t)"
    unfolding run_witness_def by blast
  from t(1) assms(5) have t1: "t \<in> set (tasks c1)" by simp
  have k1: "k < length (tasks c1)" using assms(2,5) by simp
  have nk: "tasks c1 ! k = tasks c ! k" using assms(2,5) by (simp add: nth_append)
  from witness_moved[OF t1 k1, of p'] obtain t' where
    "t' \<in> set (tasks (setpc k p' c1))" "tid t' = tid t"
    "tpc t' = tpc t \<or> t = tasks c1 ! k \<and> tpc t' = p'" by blast
  with t assms(3) nk show "\<exists>t\<in>set (tasks (setpc k p' c1)). tid t = i \<and> in_run (tpc t)"
    by auto
qed

text \<open>A step of task \<open>k\<close> that writes the status of its node.\<close>

lemma run_witness_status:
  assumes "run_witness c" and "k < length (tasks c)"
    and "nodeStatus (dag c1) = (nodeStatus (dag c))(tid (tasks c ! k) \<mapsto> st)"
    and "tasks c1 = tasks c" and "st = Running \<longrightarrow> in_run p'"
  shows "run_witness (setpc k p' c1)"
  unfolding run_witness_def
proof (intro allI impI)
  fix i assume r: "nodeStatus (dag (setpc k p' c1)) i = Some Running"
  show "\<exists>t\<in>set (tasks (setpc k p' c1)). tid t = i \<and> in_run (tpc t)"
  proof (cases "i = tid (tasks c ! k)")
    case True
    with r assms(3) have "st = Running" by simp
    with assms(5) have "in_run p'" by simp
    moreover from witness_self[of k c1 p'] assms(2,4) obtain t where
      "t \<in> set (tasks (setpc k p' c1))" "tid t = tid (tasks c ! k)" "tpc t = p'" by auto
    ultimately show ?thesis using True by auto
  next
    case False
    with r assms(3) have "nodeStatus (dag c) i = Some Running" by simp
    with assms(1) obtain t where t: "t \<in> set (tasks c)" "tid t = i" "in_run (tpc t)"
      unfolding run_witness_def by blast
    with False assms(4) have "t \<in> set (tasks (setpc k p' c1))"
      using witness_other[of t c1 k p'] by simp
    with t show ?thesis by blast
  qed
qed

lemma run_witness_slot_inv:
  "slot_inv c \<Longrightarrow> mainpc c \<noteq> Panicked \<Longrightarrow> run_witness c"
  by (auto simp: slot_inv_def run_witness_def)

lemma in_run_holds: "in_run p \<Longrightarrow> holds p"
  by (cases p) auto

lemma slot_inv_intro:
  "holders c = sem c \<Longrightarrow> sem c = 0 \<or> int (sem c) \<le> maxConcurrent (dag c) \<Longrightarrow> run_witness c \<Longrightarrow>
   slot_inv c"
  by (auto simp: slot_inv_def run_witness_def)

text \<open>The panic of a send that publishes a status.\<close>

lemma slot_inv_status_panic:
  assumes "slot_inv c" and "mainpc c \<noteq> Panicked" and "k < length (tasks c)"
    and "holds (tpc (tasks c ! k))"
  shows "slot_inv (crash (c\<lparr>dag := (dag c)\<lparr>nodeStatus := (nodeStatus (dag c))(tid (tasks c ! k) \<mapsto> st)\<rparr>\<rparr>))"
proof -
  have "\<exists>t\<in>set (tasks c). tid t = i \<and> holds (tpc t)"
    if "((nodeStatus (dag c))(tid (tasks c ! k) \<mapsto> st)) i = Some Running" for i
  proof (cases "i = tid (tasks c ! k)")
    case True
    with assms(3,4) show ?thesis by (metis nth_mem)
  next
    case False
    with that have "nodeStatus (dag c) i = Some Running" by simp
    with assms(1,2) show ?thesis by (auto simp: slot_inv_def dest: in_run_holds)
  qed
  then have W: "\<forall>i. ((nodeStatus (dag c))(tid (tasks c ! k) \<mapsto> st)) i = Some Running \<longrightarrow>
      (\<exists>t\<in>set (tasks c). tid t = i \<and> (in_run (tpc t) \<or> holds (tpc t)))" by blast
  from assms(1) have A: "holders c = sem c" "sem c = 0 \<or> int (sem c) \<le> maxConcurrent (dag c)"
    by (simp_all add: slot_inv_def)
  show ?thesis
    unfolding slot_inv_def using A W by (simp add: crash_def holders_def)
qed

lemma slot_inv_crash: "slot_inv c \<Longrightarrow> slot_inv (crash c)"
  by (auto simp: slot_inv_def crash_def holders_def)

lemma task_step_slot_inv:
  assumes st: "task_step ord k i p c = Some c'" and k: "k < length (tasks c)"
    and p: "tpc (tasks c ! k) = p" and i: "tid (tasks c ! k) = i"
    and inv: "slot_inv c" and np: "mainpc c \<noteq> Panicked"
  shows "slot_inv c'"
proof -
  from inv have "holders c = sem c" "sem c = 0 \<or> int (sem c) \<le> maxConcurrent (dag c)"
    by (simp_all add: slot_inv_def)
  from task_step_slots[OF st k p i this]
  have AB: "holders c' = sem c'" "sem c' = 0 \<or> int (sem c') \<le> maxConcurrent (dag c')" by simp_all
  from inv np have W: "run_witness c" by (rule run_witness_slot_inv)
  note keep = run_witness_keep[OF W k, where ts = "[]"]
  note stat = run_witness_status[OF W k]
  have "run_witness c' \<or> slot_inv c'"
  proof (cases p)
    case Acquire
    with st have "c' = setpc k SetRunning (c\<lparr>sem := Suc (sem c)\<rparr>)" by (simp split: if_splits)
    with keep[of SetRunning "c\<lparr>sem := Suc (sem c)\<rparr>"] p Acquire show ?thesis by simp
  next
    case SetRunning
    show ?thesis
    proof (cases "updateNodeStatus i Running (dag c)")
      case (Inl d)
      with st SetRunning have c': "c' = crash (c\<lparr>dag := d\<rparr>)" by simp
      from updateNodeStatus_Inl[OF Inl] have "d = (dag c)\<lparr>nodeStatus := (nodeStatus (dag c))(i \<mapsto> Running)\<rparr>"
        by simp
      with slot_inv_status_panic[OF inv np k, of Running] p SetRunning i c' show ?thesis by simp
    next
      case (Inr d)
      with st SetRunning have c': "c' = setpc k Assemble (c\<lparr>dag := d\<rparr>)" by simp
      from updateNodeStatus_Inr[OF Inr] have "nodeStatus d = (nodeStatus (dag c))(i \<mapsto> Running)"
        by simp
      with stat[of "c\<lparr>dag := d\<rparr>" Running Assemble] i c' show ?thesis by simp
    qed
  next
    case Assemble
    show ?thesis
    proof (cases "map_of (nodes (dag c)) i")
      case None
      with st Assemble inv show ?thesis by (auto simp: slot_inv_crash)
    next
      case (Some g)
      with st Assemble keep[of _ c] show ?thesis by (auto split: option.splits)
    qed
  next
    case (Collect gs xs)
    show ?thesis
    proof (cases gs)
      case Nil
      show ?thesis
      proof (cases "nodeMap (dag c) i")
        case None
        with st Collect Nil inv show ?thesis by (auto simp: slot_inv_crash)
      next
        case (Some n)
        with st Collect Nil keep[of "CallExecute xs" "setNode i (SetInputs n xs) c"] show ?thesis
          by auto
      qed
    next
      case (Cons g gs')
      with st Collect keep[of _ c] show ?thesis by auto
    qed
  next
    case (CallExecute xs)
    show ?thesis
    proof (cases "nodeMap (dag c) i")
      case None
      with st CallExecute inv show ?thesis by (auto simp: slot_inv_crash)
    next
      case (Some n)
      with st CallExecute keep[of _ "setNode i (snd (Execute_node n)) c"] show ?thesis
        by (auto split: option.splits)
    qed
  next
    case (RecordErr e)
    with st keep[of SetError "c\<lparr>execErr := Some e, errLog := errLog c @ [e]\<rparr>"] show ?thesis
      by auto
  next
    case SetError
    show ?thesis
    proof (cases "updateNodeStatus i Error (dag c)")
      case (Inl d)
      with st SetError have c': "c' = crash (c\<lparr>dag := d\<rparr>)" by simp
      from updateNodeStatus_Inl[OF Inl] have "d = (dag c)\<lparr>nodeStatus := (nodeStatus (dag c))(i \<mapsto> Error)\<rparr>"
        by simp
      with slot_inv_status_panic[OF inv np k, of Error] p SetError i c' show ?thesis by simp
    next
      case (Inr d)
      with st SetError have c': "c' = setpc k Exit (c\<lparr>dag := d\<rparr>)" by simp
      from updateNodeStatus_Inr[OF Inr] have "nodeStatus d = (nodeStatus (dag c))(i \<mapsto> Error)"
        by simp
      with stat[of "c\<lparr>dag := d\<rparr>" Error Exit] i c' show ?thesis by simp
    qed
  next
    case (CallGetOutputs xs)
    show ?thesis
    proof (cases "nodeMap (dag c) i")
      case None
      with st CallGetOutputs inv show ?thesis by (auto simp: slot_inv_crash)
    next
      case (Some n)
      with st CallGetOutputs keep[of _ c] show ?thesis by auto
    qed
  next
    case (StoreOutputs xs ys)
    with st keep[of _ "c\<lparr>outputs := (outputs c)(i \<mapsto> ys)\<rparr>"] show ?thesis by auto
  next
    case (SetCompleted xs ys)
    show ?thesis
    proof (cases "updateNodeStatus i Completed (dag c)")
      case (Inl d)
      with st SetCompleted have c': "c' = crash (c\<lparr>dag := d\<rparr>)" by simp
      from updateNodeStatus_Inl[OF Inl]
      have "d = (dag c)\<lparr>nodeStatus := (nodeStatus (dag c))(i \<mapsto> Completed)\<rparr>" by simp
      with slot_inv_status_panic[OF inv np k, of Completed] p SetCompleted i c' show ?thesis by simp
    next
      case (Inr d)
      with st SetCompleted have c': "c' = setpc k (NotifyIO xs ys) (c\<lparr>dag := d\<rparr>)" by simp
      from updateNodeStatus_Inr[OF Inr] have "nodeStatus d = (nodeStatus (dag c))(i \<mapsto> Completed)"
        by simp
      with stat[of "c\<lparr>dag := d\<rparr>" Completed "NotifyIO xs ys"] i c' show ?thesis by simp
    qed
  next
    case (NotifyIO xs ys)
    show ?thesis
    proof (cases "notifyNodeIO i xs ys (dag c)")
      case None
      with st NotifyIO inv show ?thesis by (auto simp: slot_inv_crash)
    next
      case (Some d)
      with st NotifyIO have c': "c' = setpc k Release (c\<lparr>dag := d\<rparr>)" by simp
      from notifyNodeIO_Some[OF Some] have "nodeStatus d = nodeStatus (dag c)" by simp
      with keep[of Release "c\<lparr>dag := d\<rparr>"] p NotifyIO c' show ?thesis by simp
    qed
  next
    case Release
    show ?thesis
    proof (cases "map_of (nodes (dag c)) i")
      case None
      with st Release inv show ?thesis by (auto simp: slot_inv_crash)
    next
      case (Some g)
      from st Release Some obtain gs where c': "c' = setpc k Exit (release gs c)"
        by (auto split: option.splits)
      let ?r = "release gs c"
      from release_tasks[of gs c] obtain ts where
        ts: "tasks ?r = tasks c @ ts" by blast
      from run_witness_keep[OF W k _ _ ts, of Exit] p Release c' show ?thesis
        by (simp add: release_frame)
    qed
  next
    case Exit
    with st keep[of Done "c\<lparr>sem := sem c - 1, wg := wg c - 1\<rparr>"] p show ?thesis by auto
  next
    case Done
    with st show ?thesis by simp
  qed
  with AB show ?thesis by (auto intro: slot_inv_intro)
qed

lemma run_witness_append:
  assumes "run_witness c" and "nodeStatus (dag c1) = nodeStatus (dag c)" and "tasks c1 = tasks c @ ts"
  shows "run_witness c1"
  using assms unfolding run_witness_def by auto

lemma main_step_slot_inv:
  assumes st: "main_step q c = Some c'" and q: "mainpc c = q" and inv: "slot_inv c"
    and np: "mainpc c \<noteq> Panicked"
  shows "slot_inv c'"
proof -
  from inv have A: "holders c = sem c" "sem c = 0 \<or> int (sem c) \<le> maxConcurrent (dag c)"
    by (simp_all add: slot_inv_def)
  from inv np have W: "run_witness c" by (rule run_witness_slot_inv)
  note app = run_witness_append[OF W, where ts = "[]"]
  show ?thesis
  proof (cases q)
    case Sorting
    with st have "c' = c\<lparr>mainpc := Returned (None, None, Some Unorderable)\<rparr>"
      by (simp split: if_splits)
    with A app[of c'] show ?thesis by (auto intro!: slot_inv_intro)
  next
    case (Seed ns)
    show ?thesis
    proof (cases ns)
      case Nil
      with st Seed have "c' = c\<lparr>mainpc := Wait\<rparr>" by simp
      with A app[of c'] show ?thesis by (auto intro!: slot_inv_intro)
    next
      case (Cons n ns')
      let ?s = "seed n (nodes (dag c)) c"
      from st Seed Cons have c': "c' = ?s\<lparr>mainpc := Seed ns'\<rparr>" by simp
      from seed_tasks[of n "nodes (dag c)" c] obtain ts where "tasks ?s = tasks c @ ts" by blast
      with run_witness_append[OF W, of c' ts] have "run_witness c'" by (simp add: c' seed_frame)
      moreover have "holders c' = holders ?s" by (simp add: c')
      ultimately show ?thesis using A by (auto intro!: slot_inv_intro simp: holders_seed c' seed_frame)
    qed
  next
    case Wait
    with st have "c' = c\<lparr>mainpc := CloseStatus\<rparr>" by (simp split: if_splits)
    with A app[of c'] show ?thesis by (auto intro!: slot_inv_intro)
  next
    case CloseStatus
    show ?thesis
    proof (cases "chan_close (statusChan (dag c))")
      case None
      with st CloseStatus inv show ?thesis by (auto simp: slot_inv_crash)
    next
      case (Some ch)
      with st CloseStatus have "c' = c\<lparr>dag := (dag c)\<lparr>statusChan := ch\<rparr>, mainpc := CloseIO\<rparr>" by simp
      with A app[of c'] show ?thesis by (auto intro!: slot_inv_intro)
    qed
  next
    case CloseIO
    show ?thesis
    proof (cases "chan_close (ioChan (dag c))")
      case None
      with st CloseIO inv show ?thesis by (auto simp: slot_inv_crash)
    next
      case (Some ch)
      with st CloseIO have "c' = c\<lparr>dag := (dag c)\<lparr>ioChan := ch\<rparr>, mainpc := Finish\<rparr>" by simp
      with A app[of c'] show ?thesis by (auto intro!: slot_inv_intro)
    qed
  next
    case Finish
    with st obtain r where "c' = c\<lparr>mainpc := Returned r\<rparr>" by (auto split: option.splits)
    with A app[of c'] show ?thesis by (auto intro!: slot_inv_intro)
  next
    case (Returned r)
    with st show ?thesis by simp
  next
    case Panicked
    with st show ?thesis by simp
  qed
qed

lemma step_slot_inv:
  assumes "slot_inv c" and "step c a = Some c'"
  shows "slot_inv c'"
proof (cases a)
  case (SortOk xs)
  with assms(2) have s: "mainpc c = Sorting" and c': "c' = crash c \<or> c' = c\<lparr>mainpc := Seed xs\<rparr>"
    by (auto split: mainpc.splits if_splits)
  from c' show ?thesis
  proof
    assume "c' = crash c" with assms(1) show ?thesis by (simp add: slot_inv_crash)
  next
    assume c': "c' = c\<lparr>mainpc := Seed xs\<rparr>"
    from assms(1) s have "run_witness c" by (auto intro: run_witness_slot_inv)
    then have "run_witness c'" by (simp add: run_witness_def c')
    moreover from assms(1) have "holders c = sem c" "sem c = 0 \<or> int (sem c) \<le> maxConcurrent (dag c)"
      by (simp_all add: slot_inv_def)
    ultimately show ?thesis by (intro slot_inv_intro) (simp_all add: c')
  qed
next
  case Main
  with assms(2) have "main_step (mainpc c) c = Some c'" "mainpc c \<noteq> Panicked"
    by (auto split: if_splits)
  with main_step_slot_inv[OF _ refl assms(1)] show ?thesis by blast
next
  case (Task k)
  with assms(2) have "task_step None k (tid (tasks c ! k)) (tpc (tasks c ! k)) c = Some c'"
    "k < length (tasks c)" "mainpc c \<noteq> Panicked"
    by (auto split: if_splits)
  with task_step_slot_inv[OF _ _ refl refl assms(1)] show ?thesis by blast
next
  case (TaskIter k xs)
  with assms(2) have "task_step (Some xs) k (tid (tasks c ! k)) (tpc (tasks c ! k)) c = Some c'"
    "k < length (tasks c)" "mainpc c \<noteq> Panicked"
    by (auto split: if_splits)
  with task_step_slot_inv[OF _ _ refl refl assms(1)] show ?thesis by blast
qed

lemma task_step_frame:
  assumes "task_step ord k i p c = Some c'"
  shows "graph (dag c') = graph (dag c) \<and> nodes (dag c') = nodes (dag c)
         \<and> maxConcurrent (dag c') = maxConcurrent (dag c) \<and> inputs c' = inputs c"
proof (cases p)
  case (Collect gs xs)
  with assms show ?thesis by (cases gs) (auto simp: crash_def setNode_def split: option.splits)
qed (use assms in \<open>auto simp: crash_def setNode_def release_frame
      dest!: notifyNodeIO_Some updateNodeStatus_Inl updateNodeStatus_Inr
      split: option.splits sum.splits if_splits\<close>)

lemma main_step_frame:
  assumes "main_step q c = Some c'"
  shows "graph (dag c') = graph (dag c) \<and> nodes (dag c') = nodes (dag c)
         \<and> maxConcurrent (dag c') = maxConcurrent (dag c) \<and> inputs c' = inputs c"
proof (cases q)
  case (Seed ns)
  with assms show ?thesis by (cases ns) (auto simp: seed_frame)
qed (use assms in \<open>auto simp: crash_def split: option.splits if_splits\<close>)

lemma step_frame:
  assumes "step c a = Some c'"
  shows "graph (dag c') = graph (dag c) \<and> nodes (dag c') = nodes (dag c)
         \<and> maxConcurrent (dag c') = maxConcurrent (dag c) \<and> inputs c' = inputs c"
proof (cases a)
  case (SortOk xs)
  with assms show ?thesis by (auto simp: crash_def split: mainpc.splits if_splits)
next
  case Main
  with assms main_step_frame[of "mainpc c" c c'] show ?thesis by (auto split: if_splits)
next
  case (Task k)
  with assms task_step_frame[of None k "tid (tasks c ! k)" "tpc (tasks c ! k)" c c'] show ?thesis
    by (auto split: if_splits)
next
  case (TaskIter k xs)
  with assms task_step_frame[of "Some xs" k "tid (tasks c ! k)" "tpc (tasks c ! k)" c c']
  show ?thesis by (auto split: if_splits)
qed

lemma exec_frame:
  assumes "exec c sch = Some c'"
  shows "graph (dag c') = graph (dag c) \<and> nodes (dag c') = nodes (dag c)
         \<and> maxConcurrent (dag c') = maxConcurrent (dag c) \<and> inputs c' = inputs c"
  by (rule exec_invariant[OF assms, where P = "\<lambda>x. graph (dag x) = graph (dag c) \<and> nodes (dag x) = nodes (dag c)
         \<and> maxConcurrent (dag x) = maxConcurrent (dag c) \<and> inputs x = inputs c"])
     (auto dest: step_frame)

lemma built_status: "built d \<Longrightarrow> nodeStatus d i \<noteq> Some Running"
proof (induction rule: built.induct)
  case (built_new m)
  then show ?case by (simp add: NewDAG_def)
next
  case (built_node d j n)
  then show ?case by (simp add: AddNode_def Let_def)
next
  case (built_edge d f t)
  then show ?case
    by (auto simp: AddEdge_def split: option.splits)
qed

lemma slot_inv_init: "built d \<Longrightarrow> slot_inv (Execute_init d inp)"
  by (simp add: slot_inv_def Execute_init_def holders_def built_status)

lemma running_nodes_le_holders:
  assumes "slot_inv c"
  shows "card (running_nodes c) \<le> holders c"
proof -
  let ?H = "filter (\<lambda>t. holds (tpc t)) (tasks c)"
  have "running_nodes c \<subseteq> tid ` set ?H"
  proof
    fix i assume "i \<in> running_nodes c"
    then have "nodeStatus (dag c) i = Some Running" by (simp add: running_nodes_def)
    with assms obtain t where "t \<in> set (tasks c)" "tid t = i" "holds (tpc t)"
      by (auto simp: slot_inv_def dest: in_run_holds)
    then show "i \<in> tid ` set ?H" by auto
  qed
  then have "card (running_nodes c) \<le> card (tid ` set ?H)"
    by (intro card_mono) auto
  also have "\<dots> \<le> card (set ?H)" by (rule card_image_le) simp
  also have "\<dots> \<le> length ?H" by (rule card_length)
  finally show ?thesis by (simp add: holders_def)
qed

text \<open>
  Claim C6. At every point of a call of \<open>Execute\<close> on a graph store built through the
  API, the nodes whose status is \<open>Running\<close> are at most as many as the tasks that hold a
  slot of the semaphore, and these are at most \<open>maxConcurrent\<close>: a task takes its slot
  before it publishes \<open>Running\<close> and gives it back only after it has published
  \<open>Completed\<close> or \<open>Error\<close>.
\<close>

theorem concurrency_bound:
  assumes "built d" and "exec (Execute_init d inp) sch = Some c"
  shows "card (running_nodes c) \<le> holders c \<and> int (holders c) \<le> max 0 (maxConcurrent d)"
proof -
  from assms(1) have "slot_inv (Execute_init d inp)" by (rule slot_inv_init)
  with assms(2) have inv: "slot_inv c"
    by (rule exec_invariant) (rule step_slot_inv)
  from exec_frame[OF assms(2)] have "maxConcurrent (dag c) = maxConcurrent d"
    by (simp add: Execute_init_def)
  with inv have "int (holders c) \<le> max 0 (maxConcurrent d)"
    by (auto simp: slot_inv_def)
  with running_nodes_le_holders[OF inv] show ?thesis by simp
qed

lemma built_dag_pair: "built dag_pair"
  unfolding dag_pair_def by (intro built.intros)

theorem concurrency_bound_witness:
  "built dag_pair
   \<and> \<not> Option.is_none (exec (Execute_init dag_pair Map.empty) sched_both_running)
   \<and> holders (the (exec (Execute_init dag_pair Map.empty) sched_both_running)) = 2
   \<and> card (running_nodes (the (exec (Execute_init dag_pair Map.empty) sched_both_running)))
       \<le> holders (the (exec (Execute_init dag_pair Map.empty) sched_both_running))
   \<and> int (holders (the (exec (Execute_init dag_pair Map.empty) sched_both_running)))
       \<le> max 0 (maxConcurrent dag_pair)"
proof -
  have r: "\<not> Option.is_none (exec (Execute_init dag_pair Map.empty) sched_both_running)"
    by code_simp
  then have e: "exec (Execute_init dag_pair Map.empty) sched_both_running =
                Some (the (exec (Execute_init dag_pair Map.empty) sched_both_running))"
    by (simp add: Option.is_none_def)
  have h: "holders (the (exec (Execute_init dag_pair Map.empty) sched_both_running)) = 2"
    by code_simp
  from concurrency_bound[OF built_dag_pair e] r h built_dag_pair show ?thesis by simp
qed

section \<open>The error that Execute returns\<close>

lemma task_step_err:
  assumes "task_step ord k i p c = Some c'"
  shows "(execErr c' = execErr c \<and> errLog c' = errLog c
            \<or> (\<exists>e. execErr c' = Some e \<and> errLog c' = errLog c @ [e]))
         \<and> (mainpc c' = mainpc c \<or> mainpc c' = Panicked)"
proof (cases p)
  case (Collect gs xs)
  with assms show ?thesis by (cases gs) (auto simp: crash_def setNode_def split: option.splits)
qed (use assms in \<open>auto simp: crash_def setNode_def release_frame
      dest!: notifyNodeIO_Some updateNodeStatus_Inl updateNodeStatus_Inr
      split: option.splits sum.splits if_splits\<close>)


lemma main_step_pc:
  assumes "main_step q c = Some c'" and "mainpc c' = Returned r"
  shows "q = Sorting \<and> r = (None, None, Some Unorderable) \<or>
         q = Finish \<and> r = (case execErr c of
                  Some err \<Rightarrow> (None, None, Some err)
                | None \<Rightarrow> (Some (outputs c),
                     Some (collectFinal (GetLeafNodes (dag c)) (outputs c) Map.empty), None))"
proof (cases q)
  case (Seed ns)
  with assms show ?thesis by (cases ns) (auto simp: seed_frame)
qed (use assms in \<open>auto simp: crash_def split: option.splits if_splits\<close>)







section \<open>The terminal outputs\<close>

subsection \<open>Graph stores built through the API\<close>

lemma update_snd_subset: "snd ` set (AList.update i k ps) \<subseteq> insert k (snd ` set ps)"
  by (induction ps) auto

lemma update_distinct_snd:
  "distinct (map snd ps) \<Longrightarrow> k \<notin> snd ` set ps \<Longrightarrow> distinct (map snd (AList.update i k ps))"
proof (induction ps)
  case Nil
  then show ?case by simp
next
  case (Cons p ps)
  obtain a b where p: "p = (a, b)" by (cases p)
  show ?case
  proof (cases "a = i")
    case True
    with Cons.prems p show ?thesis by auto
  next
    case False
    from Cons.prems have d: "distinct (map snd ps)" and k: "k \<notin> snd ` set ps"
      and b: "b \<notin> snd ` set ps" and kb: "k \<noteq> b" using p by auto
    from update_snd_subset[of i k ps] b kb have "b \<notin> snd ` set (AList.update i k ps)" by auto
    with Cons.IH[OF d k] False p show ?thesis by simp
  qed
qed

lemma wf_dag_AddNode:
  assumes "wf_dag d"
  shows "wf_dag (AddNode i n d)"
proof -
  let ?k = "length (gnodes (graph d))"
  from assms have d: "distinct (map snd (nodes d))"
    and s: "snd ` set (nodes d) \<subseteq> set (gnodes (graph d))"
    and l: "\<forall>k \<in> set (gnodes (graph d)). k < ?k" by (simp_all add: wf_dag_def)
  from l have fresh: "?k \<notin> set (gnodes (graph d))" by auto
  with s have "?k \<notin> snd ` set (nodes d)" by auto
  from update_distinct_snd[OF d this] have "distinct (map snd (AList.update i ?k (nodes d)))" .
  moreover from update_snd_subset[of i ?k "nodes d"] s
  have "snd ` set (AList.update i ?k (nodes d)) \<subseteq> insert ?k (set (gnodes (graph d)))" by auto
  moreover from l have "\<forall>k \<in> insert ?k (set (gnodes (graph d))). k < Suc ?k" by auto
  ultimately show ?thesis
    by (simp add: wf_dag_def AddNode_def Let_def NewNode_def AddNode_graph_def)
qed

lemma wf_dag_AddEdge:
  assumes "wf_dag d"
  shows "wf_dag (snd (AddEdge f t d))"
proof (cases "map_of (nodes d) f")
  case None
  with assms show ?thesis by (simp add: AddEdge_missing_from)
next
  case (Some u)
  note fu = this
  show ?thesis
  proof (cases "map_of (nodes d) t")
    case None
    with assms fu show ?thesis by (simp add: AddEdge_missing_to)
  next
    case (Some v)
    show ?thesis
    proof (cases "u = v")
      case True
      with assms fu Some show ?thesis by (simp add: AddEdge_self)
    next
      case False
      from fu Some have "(f, u) \<in> set (nodes d)" "(t, v) \<in> set (nodes d)"
        by (auto dest: map_of_SomeD)
      then have "u \<in> snd ` set (nodes d)" "v \<in> snd ` set (nodes d)" by force+
      with assms have "u \<in> set (gnodes (graph d))" "v \<in> set (gnodes (graph d))"
        by (auto simp: wf_dag_def)
      then have "addIfMissing (addIfMissing (gnodes (graph d)) u) v = gnodes (graph d)"
        by (simp add: addIfMissing_def)
      with assms False fu Some show ?thesis by (simp add: AddEdge_ok wf_dag_def)
    qed
  qed
qed

lemma built_wf: "built d \<Longrightarrow> wf_dag d"
proof (induction rule: built.induct)
  case (built_new m)
  then show ?case by (simp add: wf_dag_def NewDAG_def NewDirectedGraph_def)
next
  case (built_node d i n)
  then show ?case by (simp add: wf_dag_AddNode)
next
  case (built_edge d f t)
  then show ?case by (simp add: wf_dag_AddEdge)
qed

subsection \<open>The leaves\<close>

lemma find_distinct_snd:
  "distinct (map snd ps) \<Longrightarrow> p \<in> set ps \<Longrightarrow> find (\<lambda>q. snd q = snd p) ps = Some p"
proof (induction ps)
  case Nil
  then show ?case by simp
next
  case (Cons a ps)
  show ?case
  proof (cases "p = a")
    case True
    then show ?thesis by simp
  next
    case False
    with Cons.prems have "p \<in> set ps" by simp
    with Cons.prems have "snd a \<noteq> snd p" by force
    with Cons \<open>p \<in> set ps\<close> show ?thesis by simp
  qed
qed

lemma idOf_iff:
  assumes "distinct (map snd (nodes d))"
  shows "idOf d k = Some i \<longleftrightarrow> (i, k) \<in> set (nodes d)"
proof
  assume "idOf d k = Some i"
  then obtain p where "find (\<lambda>q. snd q = k) (nodes d) = Some p" "fst p = i"
    by (auto simp: idOf_def)
  then show "(i, k) \<in> set (nodes d)"
    by (auto simp: find_Some_iff)
next
  assume "(i, k) \<in> set (nodes d)"
  from find_distinct_snd[OF assms this] show "idOf d k = Some i" by (simp add: idOf_def)
qed

lemma set_GetLeafNodes:
  assumes "wf_dag d"
  shows "set (GetLeafNodes d) = leaves d"
proof -
  from assms have dist: "distinct (map snd (nodes d))"
    and sub: "snd ` set (nodes d) \<subseteq> set (gnodes (graph d))" by (simp_all add: wf_dag_def)
  have "set (GetLeafNodes d) =
        {i. \<exists>k \<in> set (gnodes (graph d)). From (graph d) k = [] \<and> idOf d k = Some i}"
    by (auto simp: GetLeafNodes_def split: if_splits option.splits)
  also have "\<dots> = {i. \<exists>k. From (graph d) k = [] \<and> (i, k) \<in> set (nodes d)}"
    using sub by (auto simp: idOf_iff[OF dist]) force
  also have "\<dots> = leaves d"
    by (auto simp: leaves_def) force
  finally show ?thesis .
qed

lemma GetLeafNodes_cong:
  assumes "graph d1 = graph d2" and "nodes d1 = nodes d2"
  shows "GetLeafNodes d1 = GetLeafNodes d2"
proof -
  from assms(2) have "idOf d1 = idOf d2" by (simp add: idOf_def fun_eq_iff)
  with assms(1) show ?thesis by (simp add: GetLeafNodes_def cong: if_cong)
qed

lemma collectFinal_eq:
  "collectFinal is outs fin =
     (\<lambda>i. if i \<in> set is then Some (case outs i of None \<Rightarrow> [] | Some v \<Rightarrow> v) else fin i)"
  by (induction "is" arbitrary: fin) (auto simp: fun_eq_iff)

subsection \<open>What a successful call returns\<close>

lemma main_step_Returned_dag:
  assumes "main_step q c = Some c'" and "mainpc c' = Returned r"
  shows "dag c' = dag c"
proof (cases q)
  case (Seed ns)
  with assms show ?thesis by (cases ns) (auto simp: seed_frame)
qed (use assms in \<open>auto simp: crash_def split: option.splits if_splits\<close>)

lemma step_fin_inv:
  assumes "fin_inv c" and st: "step c a = Some c'"
  shows "fin_inv c'"
proof -
  have task: "fin_inv c'"
    if ts: "task_step ord k (tid (tasks c ! k)) (tpc (tasks c ! k)) c = Some c'"
      and ne: "\<not> ended (mainpc c)" for ord k
  proof -
    from task_step_err[OF ts] have "mainpc c' = mainpc c \<or> mainpc c' = Panicked" by simp
    with ne show ?thesis by (auto simp: fin_inv_def)
  qed
  show ?thesis
  proof (cases a)
    case (SortOk xs)
    with st have "c' = crash c \<or> c' = c\<lparr>mainpc := Seed xs\<rparr>"
      by (auto split: mainpc.splits if_splits)
    then show ?thesis by (auto simp: fin_inv_def crash_def)
  next
    case Main
    with st have ms: "main_step (mainpc c) c = Some c'" by (auto split: if_splits)
    show ?thesis
      unfolding fin_inv_def
    proof (intro allI impI)
      fix outs fin e assume r: "mainpc c' = Returned (Some outs, Some fin, e)"
      from main_step_pc[OF ms r] main_step_Returned_dag[OF ms r]
      show "fin = collectFinal (GetLeafNodes (dag c')) outs Map.empty"
        by (auto split: option.splits)
    qed
  next
    case (Task k)
    with st task[of None k] show ?thesis by (auto split: if_splits)
  next
    case (TaskIter k xs)
    with st task[of "Some xs" k] show ?thesis by (auto split: if_splits)
  qed
qed

text \<open>
  Claim C3, as the code has it. When \<open>Execute\<close> succeeds on a graph store built through
  the API, the keys of \<open>terminalOutputs\<close> are exactly the leaf ids of the graph as it was
  built, and every leaf is mapped to its entry of the output table, or to the nil
  sequence when the output table has no entry for it.
\<close>

theorem terminal_outputs:
  assumes "built d" and "exec (Execute_init d inp) sch = Some c"
    and "mainpc c = Returned (Some outs, Some fin, e)"
  shows "dom fin = leaves d
         \<and> (\<forall>i \<in> leaves d. fin i = Some (case outs i of None \<Rightarrow> [] | Some v \<Rightarrow> v))"
proof -
  have "fin_inv (Execute_init d inp)" by (simp add: fin_inv_def Execute_init_def)
  with assms(2) have "fin_inv c" by (rule exec_invariant) (rule step_fin_inv)
  with assms(3) have fin: "fin = collectFinal (GetLeafNodes (dag c)) outs Map.empty"
    by (simp add: fin_inv_def)
  from exec_frame[OF assms(2)] have "GetLeafNodes (dag c) = GetLeafNodes d"
    by (intro GetLeafNodes_cong) (simp_all add: Execute_init_def)
  with set_GetLeafNodes[OF built_wf[OF assms(1)]] have "set (GetLeafNodes (dag c)) = leaves d"
    by simp
  with fin have "fin = (\<lambda>i. if i \<in> leaves d
      then Some (case outs i of None \<Rightarrow> [] | Some v \<Rightarrow> v) else None)"
    by (simp add: collectFinal_eq)
  then show ?thesis by (simp add: dom_def)
qed

lemma succeededD:
  "succeeded r \<Longrightarrow>
   \<exists>c outs fin. r = Some c \<and> mainpc c = Returned (Some outs, Some fin, None)
      \<and> returned_outputs r = outs \<and> returned_final r = fin"
  by (auto simp: succeeded_def returned_outputs_def returned_final_def
           split: option.splits mainpc.splits)

lemma built_dag_text_llm: "built dag_text_llm"
  unfolding dag_text_llm_def by (intro built.intros)

theorem terminal_outputs_witness:
  "built dag_text_llm \<and> succeeded (run dag_text_llm inp_hello sched_text_llm)
   \<and> leaves dag_text_llm = {''llmNode''}
   \<and> dom (returned_final (run dag_text_llm inp_hello sched_text_llm)) = {''llmNode''}
   \<and> returned_final (run dag_text_llm inp_hello sched_text_llm) ''llmNode''
       = Some [''mock response: hello world'']"
proof -
  have s: "succeeded (run dag_text_llm inp_hello sched_text_llm)" by code_simp
  from succeededD[OF s] obtain c outs fin where
    c: "exec (Execute_init dag_text_llm inp_hello) sched_text_llm = Some c"
    and m: "mainpc c = Returned (Some outs, Some fin, None)"
    and f: "returned_final (run dag_text_llm inp_hello sched_text_llm) = fin"
    by (auto simp: run_def)
  have l: "leaves dag_text_llm = {''llmNode''}" by code_simp
  have v: "returned_final (run dag_text_llm inp_hello sched_text_llm) ''llmNode''
       = Some [''mock response: hello world'']" by code_simp
  from terminal_outputs[OF built_dag_text_llm c m] l f
  have "dom (returned_final (run dag_text_llm inp_hello sched_text_llm)) = {''llmNode''}" by simp
  with s l v built_dag_text_llm show ?thesis by simp
qed

text \<open>
  Claim C3 as stated fails: after \<open>AddEdge("a", "b")\<close> twice the counter of \<open>b\<close> never
  reaches 0, \<open>b\<close> never runs and \<open>Execute\<close> succeeds; the leaf \<open>b\<close> is a key of
  \<open>terminalOutputs\<close> (with the nil sequence) but not of the output table, so
  \<open>terminalOutputs\<close> is not the restriction of the output table to the leaves.
\<close>

theorem restriction_counterexample:
  "succeeded (run dag_dup inp_a sched_dup)
   \<and> leaves dag_dup = {''b''}
   \<and> returned_final (run dag_dup inp_a sched_dup) ''b'' = Some []
   \<and> (returned_outputs (run dag_dup inp_a sched_dup) |` leaves dag_dup) ''b'' = None"
  by code_simp

section \<open>The outcome of AddEdge\<close>

text \<open>On a graph store built through the API two ids are bound to the same graph node only when they are the same id.\<close>

lemma built_same_node:
  assumes "built d" and "map_of (nodes d) from = Some u" and "map_of (nodes d) to = Some v"
  shows "u = v \<longleftrightarrow> from = to"
proof
  assume "u = v"
  from built_wf[OF assms(1)] have vals: "distinct (map snd (nodes d))" by (simp add: wf_dag_def)
  from assms(2,3) \<open>u = v\<close> have "(from, u) \<in> set (nodes d)" "(to, u) \<in> set (nodes d)"
    by (auto dest: map_of_SomeD)
  then have "idOf d u = Some from" "idOf d u = Some to" by (simp_all add: idOf_iff[OF vals])
  then show "from = to" by simp
next
  assume "from = to"
  with assms(2,3) show "u = v" by simp
qed

text \<open>
  Claim C9. \<open>AddEdge\<close> returns the missing-node error exactly when one of the two ids is
  not registered, and then (as after a panic) leaves the graph store as it was. It succeeds
  exactly when both ids are registered and bound to different graph nodes; on a graph
  store built through the API, exactly when both ids are registered and different. When it
  succeeds, the edge set is the old one with the edge inserted, the counter of \<open>to\<close> is
  one more and every other counter is unchanged.
\<close>

theorem AddEdge_contract:
  "((\<exists>i. fst (AddEdge from to d) = Failure (NodeDoesNotExist i)) =
      (\<not> registered d from \<or> \<not> registered d to))
   \<and> ((fst (AddEdge from to d) = Success) =
        (\<exists>u v. map_of (nodes d) from = Some u \<and> map_of (nodes d) to = Some v \<and> u \<noteq> v))
   \<and> (built d \<longrightarrow>
        (fst (AddEdge from to d) = Success) = (registered d from \<and> registered d to \<and> from \<noteq> to))
   \<and> (case fst (AddEdge from to d) of
        Failure e \<Rightarrow> snd (AddEdge from to d) = d
      | Panic \<Rightarrow> snd (AddEdge from to d) = d
      | Success \<Rightarrow>
          (\<exists>u v. map_of (nodes d) from = Some u \<and> map_of (nodes d) to = Some v
             \<and> set (gedges (graph (snd (AddEdge from to d)))) = insert (u, v) (set (gedges (graph d))))
          \<and> (\<forall>j. deg (snd (AddEdge from to d)) j = (if j = to then deg d to + 1 else deg d j)))"
proof (cases "map_of (nodes d) from")
  case None
  then show ?thesis
    by (simp add: AddEdge_missing_from registered_map_of)
next
  case (Some u)
  note fu = this
  show ?thesis
  proof (cases "map_of (nodes d) to")
    case None
    with fu show ?thesis
      by (simp add: AddEdge_missing_to registered_map_of)
  next
    case (Some v)
    show ?thesis
    proof (cases "u = v")
      case True
      with fu Some built_same_node[OF _ fu Some] show ?thesis
        by (auto simp: AddEdge_self registered_map_of)
    next
      case False
      with fu Some built_same_node[OF _ fu Some] show ?thesis
        by (auto simp: AddEdge_ok registered_map_of deg_upd)
    qed
  qed
qed

theorem AddEdge_contract_witness:
  "registered dag_pair ''a'' \<and> \<not> registered dag_pair ''c''
   \<and> fst (AddEdge ''a'' ''c'' dag_pair) = Failure (NodeDoesNotExist ''c'')
   \<and> snd (AddEdge ''a'' ''c'' dag_pair) = dag_pair
   \<and> built dag_pair \<and> registered dag_pair ''b''
   \<and> fst (AddEdge ''a'' ''b'' dag_pair) = Success
   \<and> set (gedges (graph (snd (AddEdge ''a'' ''b'' dag_pair)))) = {(0, 1)}
   \<and> deg (snd (AddEdge ''a'' ''b'' dag_pair)) ''b'' = 1
   \<and> deg (snd (AddEdge ''a'' ''b'' dag_pair)) ''a'' = 0"
proof -
  have r: "registered dag_pair ''a''" "\<not> registered dag_pair ''c''" "registered dag_pair ''b''"
    by code_simp+
  have f: "fst (AddEdge ''a'' ''c'' dag_pair) = Failure (NodeDoesNotExist ''c'')"
    by code_simp
  from AddEdge_contract[of "''a''" "''c''" dag_pair] f
  have u: "snd (AddEdge ''a'' ''c'' dag_pair) = dag_pair" by simp
  have m: "map_of (nodes dag_pair) ''a'' = Some 0" "map_of (nodes dag_pair) ''b'' = Some 1"
    "gedges (graph dag_pair) = []" "deg dag_pair ''b'' = 0" "deg dag_pair ''a'' = 0"
    by code_simp+
  from AddEdge_contract[of "''a''" "''b''" dag_pair] r built_dag_pair
  have s: "fst (AddEdge ''a'' ''b'' dag_pair) = Success" by simp
  with AddEdge_contract[of "''a''" "''b''" dag_pair] m
  have "set (gedges (graph (snd (AddEdge ''a'' ''b'' dag_pair)))) = {(0, 1)}"
    "deg (snd (AddEdge ''a'' ''b'' dag_pair)) ''b'' = 1"
    "deg (snd (AddEdge ''a'' ''b'' dag_pair)) ''a'' = 0"
    by simp_all
  with r f u s built_dag_pair show ?thesis by simp
qed

section \<open>Self-loops and cycles\<close>

lemma pos_trancl:
  assumes "(u, v) \<in> (set es)\<^sup>+" and "\<forall>e \<in> set es. pos xs (fst e) < pos xs (snd e)"
  shows "pos xs u < pos xs v"
  using assms(1)
proof (induction rule: trancl.induct)
  case (r_into_trancl a b)
  with assms(2) show ?case by force
next
  case (trancl_into_trancl a b c)
  from assms(2) trancl_into_trancl.hyps(2) have "pos xs b < pos xs c" by force
  with trancl_into_trancl.IH show ?case by simp
qed

lemma cyclic_no_order: "cyclic g \<Longrightarrow> \<not> is_topo_order g xs"
proof
  assume c: "cyclic g" and o: "is_topo_order g xs"
  from c obtain v where "(v, v) \<in> (set (gedges g))\<^sup>+" by (auto simp: cyclic_def)
  with o have "pos xs v < pos xs v" by (intro pos_trancl) (auto simp: is_topo_order_def)
  then show False by simp
qed

lemma ended_no_step: "ended (mainpc c) \<Longrightarrow> step c a = None"
  by (cases a; cases "mainpc c") auto

lemma ended_exec: "ended (mainpc c) \<Longrightarrow> exec c sch = Some c' \<Longrightarrow> c' = c"
  by (cases sch) (auto simp: ended_no_step)

lemma cyclic_exec:
  assumes "cyclic (graph d)" and "exec (Execute_init d inp) sch = Some c"
  shows "sch = [] \<and> c = Execute_init d inp
         \<or> c = (Execute_init d inp)\<lparr>mainpc := Returned (None, None, Some Unorderable)\<rparr>"
proof (cases sch)
  case Nil
  with assms(2) show ?thesis by simp
next
  case (Cons a as)
  with assms(2) obtain c1 where s: "step (Execute_init d inp) a = Some c1" and e: "exec c1 as = Some c"
    by (auto split: option.splits)
  have c1: "c1 = (Execute_init d inp)\<lparr>mainpc := Returned (None, None, Some Unorderable)\<rparr>"
  proof (cases a)
    case (SortOk xs)
    with s cyclic_no_order[OF assms(1), of xs] show ?thesis
      by (simp add: Execute_init_def)
  next
    case Main
    with s show ?thesis by (simp add: Execute_init_def split: if_splits)
  next
    case (Task k)
    with s show ?thesis by (simp add: Execute_init_def)
  next
    case (TaskIter k xs)
    with s show ?thesis by (simp add: Execute_init_def)
  qed
  then have "ended (mainpc c1)" by simp
  from ended_exec[OF this e] c1 show ?thesis by simp
qed

lemma cyclic_returns:
  assumes "cyclic (graph d)"
  shows "exec (Execute_init d inp) [Main]
         = Some ((Execute_init d inp)\<lparr>mainpc := Returned (None, None, Some Unorderable)\<rparr>)"
  using assms by (simp add: Execute_init_def)

text \<open>
  Claim C10, as the code has it. \<open>AddEdge(i, i)\<close> for a registered id returns no error,
  but it does not complete either: \<open>SetEdge\<close> panics, and the graph store is left as it
  was, so a self-loop never reaches the graph. \<open>AddEdge\<close> has no cycle check; when the
  graph is cyclic, the first step of \<open>Execute\<close> is possible and returns the error of the
  topological sort with no table, and no schedule does anything else: no task is started,
  no status is written and no event is sent.
\<close>

theorem self_edge_panics_cycle_rejected:
  assumes "registered d i" and "cyclic (graph d')"
  shows "AddEdge i i d = (Panic, d)
         \<and> exec (Execute_init d' inp) [Main]
             = Some ((Execute_init d' inp)\<lparr>mainpc := Returned (None, None, Some Unorderable)\<rparr>)
         \<and> (\<forall>sch c. exec (Execute_init d' inp) sch = Some c \<longrightarrow>
               tasks c = [] \<and> sent (statusChan (dag c)) = sent (statusChan d')
               \<and> nodeStatus (dag c) = nodeStatus d'
               \<and> (sch = [] \<or> mainpc c = Returned (None, None, Some Unorderable)))"
proof -
  from assms(1) obtain u where "map_of (nodes d) i = Some u"
    by (auto simp: registered_map_of)
  then have "AddEdge i i d = (Panic, d)" by (simp add: AddEdge_self)
  moreover have "tasks c = [] \<and> sent (statusChan (dag c)) = sent (statusChan d')
               \<and> nodeStatus (dag c) = nodeStatus d'
               \<and> (sch = [] \<or> mainpc c = Returned (None, None, Some Unorderable))"
    if "exec (Execute_init d' inp) sch = Some c" for sch c
    using cyclic_exec[OF assms(2) that] by (auto simp: Execute_init_def)
  ultimately show ?thesis using cyclic_returns[OF assms(2)] by blast
qed

text \<open>Claim C10 as stated fails: \<open>AddEdge("a", "a")\<close> on a registered \<open>a\<close> panics.\<close>

theorem self_edge_counterexample:
  "registered dag_pair ''a'' \<and> fst (AddEdge ''a'' ''a'' dag_pair) = Panic"
  by code_simp

theorem self_edge_panics_cycle_rejected_witness:
  "registered dag_pair ''a'' \<and> cyclic (graph dag_cycle)
   \<and> AddEdge ''a'' ''a'' dag_pair = (Panic, dag_pair)
   \<and> returned_error (run dag_cycle Map.empty [Main]) = Some Unorderable
   \<and> status_events (run dag_cycle Map.empty [Main]) = []"
proof -
  have r: "registered dag_pair ''a''" by code_simp
  have cy: "cyclic (graph dag_cycle)" by code_simp
  have s: "sent (statusChan dag_cycle) = []" by code_simp
  from self_edge_panics_cycle_rejected[OF r cy, of Map.empty] r cy s show ?thesis
    by (simp add: run_def returned_error_def status_events_def Execute_init_def)
qed
section \<open>Closing the channels\<close>

lemma task_step_closed:
  assumes "task_step ord k i p c = Some c'"
  shows "closed (statusChan (dag c')) = closed (statusChan (dag c))
         \<and> closed (ioChan (dag c')) = closed (ioChan (dag c))"
proof (cases p)
  case (Collect gs xs)
  with assms show ?thesis by (cases gs) (auto simp: crash_def setNode_def split: option.splits)
qed (use assms in \<open>auto simp: crash_def setNode_def release_frame
      dest!: notifyNodeIO_Some updateNodeStatus_Inl updateNodeStatus_Inr
      split: option.splits sum.splits if_splits\<close>)

lemma main_step_close_inv:
  assumes "close_inv c" and "main_step q c = Some c'" and "mainpc c = q"
  shows "close_inv c'"
proof (cases q)
  case (Seed ns)
  with assms show ?thesis by (cases ns) (auto simp: close_inv_def seed_frame)
qed (use assms in \<open>auto simp: close_inv_def crash_def chan_close_def split: option.splits if_splits\<close>)

lemma step_close_inv:
  assumes "close_inv c" and st: "step c a = Some c'"
  shows "close_inv c'"
proof -
  have task: "close_inv c'"
    if ts: "task_step ord k (tid (tasks c ! k)) (tpc (tasks c ! k)) c = Some c'"
      and ne: "\<not> ended (mainpc c)" for ord k
  proof -
    from ne have nr: "\<And>r. mainpc c \<noteq> Returned r" by auto
    from task_step_err[OF ts] have "mainpc c' = mainpc c \<or> mainpc c' = Panicked" by simp
    then show ?thesis
    proof
      assume "mainpc c' = mainpc c"
      with nr assms(1) task_step_closed[OF ts] show ?thesis by (simp add: close_inv_def)
    next
      assume "mainpc c' = Panicked"
      then show ?thesis by (simp add: close_inv_def)
    qed
  qed
  show ?thesis
  proof (cases a)
    case (SortOk xs)
    with st have "c' = crash c \<or> c' = c\<lparr>mainpc := Seed xs\<rparr>"
      by (auto split: mainpc.splits if_splits)
    then show ?thesis by (auto simp: close_inv_def crash_def)
  next
    case Main
    with st have "main_step (mainpc c) c = Some c'" by (auto split: if_splits)
    with assms(1) show ?thesis by (auto intro: main_step_close_inv)
  next
    case (Task k)
    with st task[of None k] show ?thesis by (auto split: if_splits)
  next
    case (TaskIter k xs)
    with st task[of "Some xs" k] show ?thesis by (auto split: if_splits)
  qed
qed

text \<open>
  Every return of \<open>Execute\<close> other than the return of the cycle error comes after both
  channels have been closed.
\<close>

lemma streams_closed_unless_cycle:
  assumes "exec (Execute_init d inp) sch = Some c" and "mainpc c = Returned r"
  shows "closed (statusChan (dag c)) \<and> closed (ioChan (dag c))
         \<or> cyclic (graph d) \<and> r = (None, None, Some Unorderable)"
proof -
  have "close_inv (Execute_init d inp)" by (simp add: close_inv_def Execute_init_def)
  with assms(1) have "close_inv c" by (rule exec_invariant) (rule step_close_inv)
  moreover from exec_frame[OF assms(1)] have "graph (dag c) = graph d"
    by (simp add: Execute_init_def)
  ultimately show ?thesis using assms(2) by (auto simp: close_inv_def)
qed

text \<open>
  Claim C2 at a cyclic graph: \<open>Execute\<close> returns the cycle error, and both channels are
  still open when it has returned.
\<close>

theorem cycle_error_leaves_streams_open:
  "returned_error (run dag_cycle Map.empty [Main]) = Some Unorderable
   \<and> streams_closed (run dag_cycle Map.empty [Main]) = (False, False)"
  by code_simp

section \<open>The seeding loop races with the tasks it has started\<close>

text \<open>
  Claim C7 on the chain \<open>a \<rightarrow> b\<close>, under \<open>sched_chain_race\<close>: \<open>b\<close> is started by the
  task of \<open>a\<close> and again by the seeding loop, and its status goes
  \<open>Running, Completed, Running, Completed\<close>.
\<close>

theorem double_start_status_events:
  "succeeded (run dag_chain inp_a sched_chain_race)
   \<and> status_events (run dag_chain inp_a sched_chain_race) =
       [NodeState ''a'' Running, NodeState ''a'' Completed,
        NodeState ''b'' Running, NodeState ''b'' Completed,
        NodeState ''b'' Running, NodeState ''b'' Completed]"
  by code_simp

text \<open>
  Claim C5 on \<open>w \<rightarrow> z \<rightarrow> y\<close>, \<open>x \<rightarrow> y\<close>, under \<open>sched_join_failed\<close>: \<open>x\<close> fails, and its
  direct successor \<open>y\<close> is started all the same (by the second task of \<open>z\<close>) and goes
  to \<open>Running\<close> and \<open>Completed\<close>.
\<close>

theorem successor_of_failed_node_runs:
  "To (graph (dag_join (failing ''boom''))) 3 = [1, 2]
   \<and> idOf (dag_join (failing ''boom'')) 2 = Some ''x''
   \<and> idOf (dag_join (failing ''boom'')) 3 = Some ''y''
   \<and> returned_error (run (dag_join (failing ''boom'')) inp_wx sched_join_failed)
       = Some (External ''boom'')
   \<and> status_events (run (dag_join (failing ''boom'')) inp_wx sched_join_failed) =
       [NodeState ''w'' Running, NodeState ''w'' Completed,
        NodeState ''x'' Running, NodeState ''x'' Error,
        NodeState ''z'' Running, NodeState ''z'' Completed,
        NodeState ''z'' Running, NodeState ''z'' Completed,
        NodeState ''y'' Running, NodeState ''y'' Completed]"
  by code_simp

text \<open>
  Claim C4 on the same graph with every node succeeding, under \<open>sched_join_late\<close>: \<open>y\<close>
  is started before its predecessor \<open>x\<close> has run, and the inputs passed to \<open>y\<close> are the
  output of \<open>z\<close> only; the output of \<open>x\<close> is committed later and never reaches \<open>y\<close>.
\<close>

theorem input_misses_predecessor_output:
  "To (graph (dag_join textProcessor)) 3 = [1, 2]
   \<and> idOf (dag_join textProcessor) 2 = Some ''x''
   \<and> idOf (dag_join textProcessor) 3 = Some ''y''
   \<and> succeeded (run (dag_join textProcessor) inp_wx sched_join_late)
   \<and> io_events (run (dag_join textProcessor) inp_wx sched_join_late) =
       [NodeIO ''w'' [''W''] [''W''], NodeIO ''z'' [''W''] [''W''],
        NodeIO ''z'' [''W''] [''W''], NodeIO ''y'' [''W''] [''W''],
        NodeIO ''x'' [''X''] [''X'']]
   \<and> returned_outputs (run (dag_join textProcessor) inp_wx sched_join_late) ''x'' = Some [''X'']"
  by code_simp

text \<open>
  The order in which \<open>y\<close> meets its predecessors plays no part in this: when the loop meets
  \<open>x\<close> before \<open>z\<close>, the inputs passed to \<open>y\<close> are the same.
\<close>

lemma late_join_other_order:
  "succeeded (run (dag_join textProcessor) inp_wx sched_join_late_rev)
   \<and> io_events (run (dag_join textProcessor) inp_wx sched_join_late_rev) =
       [NodeIO ''w'' [''W''] [''W''], NodeIO ''z'' [''W''] [''W''],
        NodeIO ''z'' [''W''] [''W''], NodeIO ''y'' [''W''] [''W''],
        NodeIO ''x'' [''X''] [''X'']]"
  by code_simp

section \<open>Runs in which the seeding loop ends before any task moves\<close>

lemma exec_invariant_orderly:
  assumes "exec c sch = Some c'" and "orderly c sch" and "P c"
    and "\<And>c a c'. P c \<Longrightarrow> step c a = Some c' \<Longrightarrow> \<not> (is_Task a \<and> seeding (mainpc c)) \<Longrightarrow> P c'"
  shows "P c'"
  using assms(1-3)
proof (induction sch arbitrary: c)
  case Nil
  then show ?case by simp
next
  case (Cons a sch)
  from Cons.prems(1) obtain c1 where s: "step c a = Some c1" and e: "exec c1 sch = Some c'"
    by (auto split: option.splits)
  from Cons.prems(2) s have o: "\<not> (is_Task a \<and> seeding (mainpc c))" "orderly c1 sch" by simp_all
  from assms(4)[OF Cons.prems(3) s o(1)] have "P c1" .
  from Cons.IH[OF e o(2) this] show ?case .
qed

lemma built_distinct_keys: "built d \<Longrightarrow> distinct (map fst (nodes d))"
proof (induction rule: built.induct)
  case (built_new m)
  then show ?case by (simp add: NewDAG_def)
next
  case (built_node d i n)
  then show ?case by (simp add: AddNode_def Let_def distinct_update)
next
  case (built_edge d f t)
  then show ?case by (auto simp: AddEdge_def split: option.splits)
qed

lemma built_chans:
  "built d \<Longrightarrow> sent (statusChan d) = [] \<and> \<not> closed (statusChan d)
     \<and> sent (ioChan d) = [] \<and> \<not> closed (ioChan d)"
proof (induction rule: built.induct)
  case (built_new m)
  then show ?case by (simp add: NewDAG_def make_chan_def)
next
  case (built_node d i n)
  then show ?case by (simp add: AddNode_def Let_def)
next
  case (built_edge d f t)
  then show ?case by (auto simp: AddEdge_def split: option.splits)
qed

lemma seed_tasks_eq:
  "tasks (seed n ps c) =
     tasks c @ map (\<lambda>p. \<lparr>tid = fst p, tpc = Acquire\<rparr>)
                  (filter (\<lambda>p. snd p = n \<and> deg (dag c) (fst p) = 0) ps)"
proof (induction ps arbitrary: c)
  case Nil
  then show ?case by simp
next
  case (Cons p ps)
  show ?case
    using Cons.IH[of "spawn (fst p) c"] Cons.IH[of c] by (simp add: spawn_def)
qed

lemma map_tid_setpc: "map tid (tasks (setpc k p c)) = map tid (tasks c)"
proof (cases "k < length (tasks c)")
  case True
  then have "(map tid (tasks c))[k := tid (tasks c ! k)] = map tid (tasks c)"
    by (simp add: list_update_same_conv)
  then show ?thesis by (simp add: setpc_def map_update)
next
  case False
  then show ?thesis by (simp add: setpc_def list_update_beyond)
qed

lemma events_of_append:
  "events_of i (l @ [NodeState j st]) = events_of i l @ (if j = i then [st] else [])"
  by (induction i l rule: events_of.induct) auto

lemma deg_cong: "inDegree d1 = inDegree d2 \<Longrightarrow> deg d1 = deg d2"
  by (simp add: deg_def fun_eq_iff)

text \<open>What \<open>task_inv\<close> depends on.\<close>

lemma task_inv_cong:
  assumes "task_inv d c" and "nodes (dag c1) = nodes (dag c)"
    and "inDegree (dag c1) = inDegree (dag c)" and "tasks c1 = tasks c"
    and "sent (statusChan (dag c1)) = sent (statusChan (dag c))"
  shows "task_inv d c1"
  using assms deg_cong[OF assms(3)] by (simp add: task_inv_def)

text \<open>A step of task \<open>k\<close> that publishes at most an event of its own node.\<close>

lemma task_inv_setpc:
  assumes inv: "task_inv d c" and k: "k < length (tasks c)"
    and c1: "nodes (dag c1) = nodes (dag c)" "inDegree (dag c1) = inDegree (dag c)"
      "tasks c1 = tasks c"
    and ev: "sent (statusChan (dag c1)) = sent (statusChan (dag c)) @ ev"
      "ev = [] \<or> (\<exists>st. ev = [NodeState (tid (tasks c ! k)) st])"
    and ok: "log_ok p' (events_of (tid (tasks c ! k)) (sent (statusChan (dag c1))))"
  shows "task_inv d (setpc k p' c1)"
proof -
  let ?j = "tid (tasks c ! k)"
  let ?l = "sent (statusChan (dag c))" and ?l1 = "sent (statusChan (dag c1))"
  have other: "events_of i ?l1 = events_of i ?l" if "i \<noteq> ?j" for i
    using ev that by (auto simp: events_of_append)
  from inv have dist: "distinct (map tid (tasks c))" by (simp add: task_inv_def)
  have tids: "map tid (tasks (setpc k p' c1)) = map tid (tasks c)"
    using c1(3) by (simp add: map_tid_setpc)
  then have tidset: "tid ` set (tasks (setpc k p' c1)) = tid ` set (tasks c)"
    by (metis list.set_map)
  have len: "length (tasks (setpc k p' c1)) = length (tasks c)" using c1(3) by simp
  have each: "deg (dag (setpc k p' c1)) (tid t) \<le> 0 \<and> tid t \<in> fst ` set (nodes d)
        \<and> log_ok (tpc t) (events_of (tid t) (sent (statusChan (dag (setpc k p' c1)))))"
    if "t \<in> set (tasks (setpc k p' c1))" for t
  proof -
    from that obtain m where m: "m < length (tasks c)" "tasks (setpc k p' c1) ! m = t"
      using len by (auto simp: in_set_conv_nth)
    from inv m(1) have old: "deg (dag c) (tid (tasks c ! m)) \<le> 0"
      "tid (tasks c ! m) \<in> fst ` set (nodes d)"
      "log_ok (tpc (tasks c ! m)) (events_of (tid (tasks c ! m)) ?l)"
      by (auto simp: task_inv_def)
    show ?thesis
    proof (cases "m = k")
      case True
      with m k c1(3) have "tid t = ?j" "tpc t = p'" by (auto simp: setpc_nth)
      with old True ok deg_cong[OF c1(2)] show ?thesis by simp
    next
      case False
      with m k c1(3) have t: "t = tasks c ! m" by (auto simp: setpc_nth)
      from False m(1) k dist have "tid (tasks c ! m) \<noteq> ?j"
        by (metis distinct_conv_nth length_map nth_map)
      with old t other deg_cong[OF c1(2)] show ?thesis by simp
    qed
  qed
  have none: "events_of i (sent (statusChan (dag (setpc k p' c1)))) = []"
    if "i \<notin> tid ` set (tasks (setpc k p' c1))" for i
  proof -
    from that tidset have ni: "i \<notin> tid ` set (tasks c)" by simp
    with k have "i \<noteq> ?j" by (metis image_eqI nth_mem)
    with other ni inv show ?thesis by (simp add: task_inv_def)
  qed
  from inv c1(1) dist tids each none show ?thesis
    unfolding task_inv_def by simp
qed

lemma deg_decrement:
  "deg (dag (decrement i c)) j = (if j = i then deg (dag c) i - 1 else deg (dag c) j)"
  by (simp add: decrement_def deg_def)

lemma idOf_registered:
  assumes "idOf d k = Some i"
  shows "(i, k) \<in> set (nodes d)"
proof -
  from assms obtain p where "find (\<lambda>q. snd q = k) (nodes d) = Some p" "fst p = i"
    by (auto simp: idOf_def)
  then have "p \<in> set (nodes d)" "snd p = k" "fst p = i"
    by (auto simp: find_Some_iff)
  then show ?thesis by (metis prod.collapse)
qed

lemma task_inv_decrement:
  assumes "task_inv d c"
  shows "task_inv d (decrement i c)"
proof -
  have "deg (dag (decrement i c)) j \<le> deg (dag c) j" for j by (simp add: deg_decrement)
  moreover have "nodes (dag (decrement i c)) = nodes (dag c)" "tasks (decrement i c) = tasks c"
    "statusChan (dag (decrement i c)) = statusChan (dag c)" by (simp_all add: decrement_def)
  ultimately show ?thesis using assms unfolding task_inv_def
    by (metis order_trans)
qed

lemma task_inv_spawn:
  assumes inv: "task_inv d c" and new: "i \<notin> tid ` set (tasks c)"
    and z: "deg (dag c) i \<le> 0" and r: "i \<in> fst ` set (nodes d)"
  shows "task_inv d (spawn i c)"
proof -
  from inv new have e: "events_of i (sent (statusChan (dag c))) = []" by (simp add: task_inv_def)
  have f: "dag (spawn i c) = dag c" "tasks (spawn i c) = tasks c @ [\<lparr>tid = i, tpc = Acquire\<rparr>]"
    by (simp_all add: spawn_def)
  from inv new z r e show ?thesis
    unfolding task_inv_def f by auto
qed

lemma task_inv_release: "task_inv d c \<Longrightarrow> task_inv d (release ks c)"
proof (induction ks arbitrary: c)
  case Nil
  then show ?case by simp
next
  case (Cons k ks)
  show ?case
  proof (cases "idOf (dag c) k")
    case None
    with Cons show ?thesis by simp
  next
    case (Some i)
    from Cons.prems have d1: "task_inv d (decrement i c)" by (rule task_inv_decrement)
    show ?thesis
    proof (cases "deg (dag (decrement i c)) i = 0")
      case True
      then have "deg (dag c) i = 1" by (simp add: deg_decrement)
      with Cons.prems have new: "i \<notin> tid ` set (tasks c)" by (auto simp: task_inv_def)
      from idOf_registered[OF Some] Cons.prems have "i \<in> fst ` set (nodes d)"
        by (force simp: task_inv_def)
      with task_inv_spawn[OF d1, of i] new True have "task_inv d (spawn i (decrement i c))"
        by (simp add: decrement_def)
      from Cons.IH[OF this] Some True show ?thesis by simp
    next
      case False
      from Cons.IH[OF d1] Some False show ?thesis by simp
    qed
  qed
qed

lemma distinct_keys_unique:
  "distinct (map fst ps) \<Longrightarrow> (a, b) \<in> set ps \<Longrightarrow> (a, b') \<in> set ps \<Longrightarrow> b = b'"
  by (metis map_of_eq_Some_iff option.inject)

lemma once_inv_seed:
  assumes inv: "once_inv d c" and keys: "distinct (map fst (nodes d))"
    and pc: "mainpc c = Seed (n # ns)"
  shows "once_inv d ((seed n (nodes (dag c)) c)\<lparr>mainpc := Seed ns\<rparr>)"
proof -
  let ?Q = "\<lambda>p. snd p = n \<and> deg (dag c) (fst p) = 0"
  let ?F = "filter ?Q (nodes d)"
  let ?c = "(seed n (nodes (dag c)) c)\<lparr>mainpc := Seed ns\<rparr>"
  from inv have ti: "task_inv d c" and si: "seed_inv d c" by (simp_all add: once_inv_def)
  from ti have nd: "nodes (dag c) = nodes d" by (simp add: task_inv_def)
  from si pc have dns: "distinct (n # ns)"
    and seen: "\<forall>t \<in> set (tasks c). \<forall>m. (tid t, m) \<in> set (nodes d) \<longrightarrow> m \<notin> set (n # ns)"
    by (simp_all add: seed_inv_def)
  have tk: "tasks ?c = tasks c @ map (\<lambda>p. \<lparr>tid = fst p, tpc = Acquire\<rparr>) ?F"
    by (simp add: seed_tasks_eq nd)
  have dg: "dag ?c = dag c" by (simp add: seed_frame)
  have new: "fst p \<notin> tid ` set (tasks c)" if "p \<in> set ?F" for p
  proof
    assume "fst p \<in> tid ` set (tasks c)"
    then obtain t where t: "t \<in> set (tasks c)" "tid t = fst p" by auto
    from that have "(fst p, n) \<in> set (nodes d)" by auto
    with seen t have "n \<notin> set (n # ns)" by metis
    then show False by simp
  qed
  have dF: "distinct (map fst ?F)" using keys by (rule distinct_map_filter)
  have tids: "map tid (tasks ?c) = map tid (tasks c) @ map fst ?F"
    by (simp add: tk comp_def)
  from ti have "distinct (map tid (tasks c))" by (simp add: task_inv_def)
  moreover have "set (map tid (tasks c)) \<inter> set (map fst ?F) = {}"
  proof (rule ccontr)
    assume "set (map tid (tasks c)) \<inter> set (map fst ?F) \<noteq> {}"
    then obtain x where x: "x \<in> set (map tid (tasks c))" "x \<in> set (map fst ?F)" by blast
    from x(2) obtain p where p: "p \<in> set ?F" "x = fst p" unfolding set_map by (rule imageE)
    from x(1) p(2) have "fst p \<in> tid ` set (tasks c)" unfolding set_map by simp
    with new[OF p(1)] show False by simp
  qed
  ultimately have dist: "distinct (map tid (tasks ?c))"
    unfolding tids using dF by (simp only: distinct_append)
  have each: "deg (dag ?c) (tid t) \<le> 0 \<and> tid t \<in> fst ` set (nodes d)
        \<and> log_ok (tpc t) (events_of (tid t) (sent (statusChan (dag ?c))))"
    if "t \<in> set (tasks ?c)" for t
  proof (cases "t \<in> set (tasks c)")
    case True
    with ti show ?thesis by (simp add: task_inv_def dg seed_frame)
  next
    case False
    with that tk obtain p where p: "p \<in> set ?F" "t = \<lparr>tid = fst p, tpc = Acquire\<rparr>" by auto
    from new[OF p(1)] ti have "events_of (fst p) (sent (statusChan (dag c))) = []"
      by (simp add: task_inv_def)
    with p show ?thesis by (auto simp: dg seed_frame)
  qed
  have none: "events_of i (sent (statusChan (dag ?c))) = []" if "i \<notin> tid ` set (tasks ?c)" for i
  proof -
    from that tk have "i \<notin> tid ` set (tasks c)" by auto
    with ti show ?thesis by (simp add: task_inv_def dg seed_frame)
  qed
  from nd dist each none have T: "task_inv d ?c"
    unfolding task_inv_def by (simp add: dg seed_frame)
  have visited: "m \<notin> set ns" if "t \<in> set (tasks ?c)" "(tid t, m) \<in> set (nodes d)" for t m
  proof (cases "t \<in> set (tasks c)")
    case True
    with seen that show ?thesis by auto
  next
    case False
    with that tk obtain p where p: "p \<in> set ?F" "tid t = fst p" by auto
    then have "(fst p, n) \<in> set (nodes d)" by auto
    with distinct_keys_unique[OF keys this, of m] that p have "m = n" by simp
    with dns show ?thesis by simp
  qed
  from si dns visited have "seed_inv d ?c"
    unfolding seed_inv_def by (auto simp: dg seed_frame)
  with T show ?thesis by (simp add: once_inv_def)
qed

lemma task_log:
  "task_inv d c \<Longrightarrow> k < length (tasks c) \<Longrightarrow>
   log_ok (tpc (tasks c ! k)) (events_of (tid (tasks c ! k)) (sent (statusChan (dag c))))"
  by (simp add: task_inv_def)

lemma task_step_task_inv:
  assumes st: "task_step ord k i p c = Some c'" and k: "k < length (tasks c)"
    and p: "tpc (tasks c ! k) = p" and i: "tid (tasks c ! k) = i"
    and inv: "task_inv d c"
  shows "task_inv d c'"
proof -
  let ?l = "sent (statusChan (dag c))"
  from task_log[OF inv k] p i have lg: "log_ok p (events_of i ?l)" by simp
  note quiet = task_inv_setpc[OF inv k _ _ _ _ disjI1[OF refl]]
  note cong = task_inv_cong[OF inv]
  show ?thesis
  proof (cases p)
    case Acquire
    with st have "c' = setpc k SetRunning (c\<lparr>sem := Suc (sem c)\<rparr>)" by (simp split: if_splits)
    with quiet[of "c\<lparr>sem := Suc (sem c)\<rparr>" SetRunning] lg Acquire i show ?thesis by simp
  next
    case SetRunning
    show ?thesis
    proof (cases "updateNodeStatus i Running (dag c)")
      case (Inl d')
      with st SetRunning have c': "c' = crash (c\<lparr>dag := d'\<rparr>)" by simp
      from updateNodeStatus_Inl[OF Inl] cong[of c'] show ?thesis by (simp add: c')
    next
      case (Inr d')
      with st SetRunning have c': "c' = setpc k Assemble (c\<lparr>dag := d'\<rparr>)" by simp
      from updateNodeStatus_Inr[OF Inr]
      have d': "d' = (dag c)\<lparr>nodeStatus := (nodeStatus (dag c))(i \<mapsto> Running),
          statusChan := (statusChan (dag c))\<lparr>sent := ?l @ [NodeState i Running]\<rparr>\<rparr>" by simp
      from lg SetRunning have "events_of i ?l = []" by simp
      then have "log_ok Assemble (events_of i (?l @ [NodeState i Running]))"
        by (simp add: events_of_append)
      with task_inv_setpc[OF inv k, of "c\<lparr>dag := d'\<rparr>" "[NodeState i Running]" Assemble] i
      show ?thesis by (simp add: c' d')
    qed
  next
    case Assemble
    show ?thesis
    proof (cases "map_of (nodes (dag c)) i")
      case None
      with st Assemble cong[of c'] show ?thesis by auto
    next
      case (Some g)
      with st Assemble quiet[of c] lg i show ?thesis by (auto split: option.splits)
    qed
  next
    case (Collect gs xs)
    show ?thesis
    proof (cases gs)
      case Nil
      show ?thesis
      proof (cases "nodeMap (dag c) i")
        case None
        with st Collect Nil cong[of c'] show ?thesis by auto
      next
        case (Some n)
        with st Collect Nil quiet[of "setNode i (SetInputs n xs) c" "CallExecute xs"] lg i
        show ?thesis by (auto simp: setNode_def)
      qed
    next
      case (Cons g gs')
      with st Collect quiet[of c] lg i show ?thesis by auto
    qed
  next
    case (CallExecute xs)
    show ?thesis
    proof (cases "nodeMap (dag c) i")
      case None
      with st CallExecute cong[of c'] show ?thesis by auto
    next
      case (Some n)
      with st CallExecute quiet[of "setNode i (snd (Execute_node n)) c"] lg i show ?thesis
        by (auto simp: setNode_def split: option.splits)
    qed
  next
    case (RecordErr e)
    with st quiet[of "c\<lparr>execErr := Some e, errLog := errLog c @ [e]\<rparr>" SetError] lg i
    show ?thesis by auto
  next
    case SetError
    show ?thesis
    proof (cases "updateNodeStatus i Error (dag c)")
      case (Inl d')
      with st SetError have c': "c' = crash (c\<lparr>dag := d'\<rparr>)" by simp
      from updateNodeStatus_Inl[OF Inl] cong[of c'] show ?thesis by (simp add: c')
    next
      case (Inr d')
      with st SetError have c': "c' = setpc k Exit (c\<lparr>dag := d'\<rparr>)" by simp
      from updateNodeStatus_Inr[OF Inr]
      have d': "d' = (dag c)\<lparr>nodeStatus := (nodeStatus (dag c))(i \<mapsto> Error),
          statusChan := (statusChan (dag c))\<lparr>sent := ?l @ [NodeState i Error]\<rparr>\<rparr>" by simp
      from lg SetError have "events_of i ?l = [Running]" by simp
      then have "log_ok Exit (events_of i (?l @ [NodeState i Error]))"
        by (simp add: events_of_append)
      with task_inv_setpc[OF inv k, of "c\<lparr>dag := d'\<rparr>" "[NodeState i Error]" Exit] i
      show ?thesis by (simp add: c' d')
    qed
  next
    case (CallGetOutputs xs)
    show ?thesis
    proof (cases "nodeMap (dag c) i")
      case None
      with st CallGetOutputs cong[of c'] show ?thesis by auto
    next
      case (Some n)
      with st CallGetOutputs quiet[of c] lg i show ?thesis by auto
    qed
  next
    case (StoreOutputs xs ys)
    with st quiet[of "c\<lparr>outputs := (outputs c)(i \<mapsto> ys)\<rparr>"] lg i show ?thesis by auto
  next
    case (SetCompleted xs ys)
    show ?thesis
    proof (cases "updateNodeStatus i Completed (dag c)")
      case (Inl d')
      with st SetCompleted have c': "c' = crash (c\<lparr>dag := d'\<rparr>)" by simp
      from updateNodeStatus_Inl[OF Inl] cong[of c'] show ?thesis by (simp add: c')
    next
      case (Inr d')
      with st SetCompleted have c': "c' = setpc k (NotifyIO xs ys) (c\<lparr>dag := d'\<rparr>)" by simp
      from updateNodeStatus_Inr[OF Inr]
      have d': "d' = (dag c)\<lparr>nodeStatus := (nodeStatus (dag c))(i \<mapsto> Completed),
          statusChan := (statusChan (dag c))\<lparr>sent := ?l @ [NodeState i Completed]\<rparr>\<rparr>" by simp
      from lg SetCompleted have "events_of i ?l = [Running]" by simp
      then have "log_ok (NotifyIO xs ys) (events_of i (?l @ [NodeState i Completed]))"
        by (simp add: events_of_append)
      with task_inv_setpc[OF inv k, of "c\<lparr>dag := d'\<rparr>" "[NodeState i Completed]" "NotifyIO xs ys"] i
      show ?thesis by (simp add: c' d')
    qed
  next
    case (NotifyIO xs ys)
    show ?thesis
    proof (cases "notifyNodeIO i xs ys (dag c)")
      case None
      with st NotifyIO cong[of c'] show ?thesis by auto
    next
      case (Some d')
      with st NotifyIO have c': "c' = setpc k Release (c\<lparr>dag := d'\<rparr>)" by simp
      from notifyNodeIO_Some[OF Some] quiet[of "c\<lparr>dag := d'\<rparr>" Release] lg NotifyIO i
      show ?thesis by (simp add: c')
    qed
  next
    case Release
    show ?thesis
    proof (cases "map_of (nodes (dag c)) i")
      case None
      with st Release cong[of c'] show ?thesis by auto
    next
      case (Some g)
      from st Release Some obtain gs where c': "c' = setpc k Exit (release gs c)"
        by (auto split: option.splits)
      let ?r = "release gs c"
      from inv have r: "task_inv d ?r" by (rule task_inv_release)
      have kr: "k < length (tasks ?r)" using k release_length[of c] by (meson less_le_trans)
      have nr: "tasks ?r ! k = tasks c ! k" using release_nth[OF k] by simp
      from task_log[OF r kr] nr p i Release
      have "log_ok Exit (events_of i (sent (statusChan (dag ?r))))" by simp
      with task_inv_setpc[OF r kr, of ?r "[]" Exit] nr i show ?thesis by (simp add: c')
    qed
  next
    case Exit
    with st quiet[of "c\<lparr>sem := sem c - 1, wg := wg c - 1\<rparr>" Done] lg i show ?thesis by auto
  next
    case Done
    with st show ?thesis by simp
  qed
qed

lemma main_step_task_inv:
  assumes "main_step q c = Some c'" and "\<not> seeding q" and "task_inv d c"
  shows "task_inv d c'"
proof -
  from assms(1,2) have "nodes (dag c') = nodes (dag c) \<and> inDegree (dag c') = inDegree (dag c)
      \<and> tasks c' = tasks c \<and> sent (statusChan (dag c')) = sent (statusChan (dag c))"
    by (cases q) (auto simp: crash_def chan_close_def split: option.splits if_splits)
  with task_inv_cong[OF assms(3), of c'] show ?thesis by simp
qed

lemma step_once_inv:
  assumes inv: "once_inv d c" and keys: "distinct (map fst (nodes d))"
    and st: "step c a = Some c'" and ord: "\<not> (is_Task a \<and> seeding (mainpc c))"
  shows "once_inv d c'"
proof -
  have task: "once_inv d c'"
    if ts: "task_step ord k (tid (tasks c ! k)) (tpc (tasks c ! k)) c = Some c'"
      and k: "k < length (tasks c)" and nseed: "\<not> seeding (mainpc c)" for ord k
  proof -
    from inv have ti: "task_inv d c" and si: "seed_inv d c" by (simp_all add: once_inv_def)
    from task_step_task_inv[OF ts k refl refl ti] have T: "task_inv d c'" .
    from k si have ns: "mainpc c \<noteq> Sorting" by (auto simp: seed_inv_def)
    from task_step_err[OF ts] have "mainpc c' = mainpc c \<or> mainpc c' = Panicked" by simp
    with ns nseed have "mainpc c' \<noteq> Sorting" "\<And>ns. mainpc c' \<noteq> Seed ns" by auto
    moreover from task_step_frame[OF ts] si have "graph (dag c') = graph d"
      by (simp add: seed_inv_def)
    ultimately have "seed_inv d c'" by (simp add: seed_inv_def)
    with T show ?thesis by (simp add: once_inv_def)
  qed
  show ?thesis
  proof (cases a)
    case (SortOk xs)
    with st have s: "mainpc c = Sorting" and o: "is_topo_order (graph (dag c)) xs"
      and c': "c' = crash c \<or> c' = c\<lparr>mainpc := Seed xs\<rparr>"
      by (auto split: mainpc.splits if_splits)
    from inv have ti: "task_inv d c" and si: "seed_inv d c" by (simp_all add: once_inv_def)
    from c' task_inv_cong[OF ti, of c'] have "task_inv d c'" by (auto simp: crash_def)
    moreover from si s o c' have "seed_inv d c'"
      by (auto simp: seed_inv_def crash_def is_topo_order_def)
    ultimately show ?thesis by (simp add: once_inv_def)
  next
    case Main
    with st have ms: "main_step (mainpc c) c = Some c'" by (auto split: if_splits)
    show ?thesis
    proof (cases "mainpc c")
      case (Seed ns)
      show ?thesis
      proof (cases ns)
        case Nil
        with ms Seed have c': "c' = c\<lparr>mainpc := Wait\<rparr>" by simp
        from inv task_inv_cong[of d c c'] show ?thesis
          by (simp add: once_inv_def seed_inv_def c')
      next
        case (Cons n ns')
        with ms Seed have "c' = (seed n (nodes (dag c)) c)\<lparr>mainpc := Seed ns'\<rparr>" by simp
        with once_inv_seed[OF inv keys] Seed Cons show ?thesis by simp
      qed
    next
      case Sorting
      with ms main_step_task_inv[OF ms, of d] inv show ?thesis
        by (auto simp: once_inv_def seed_inv_def split: if_splits)
    next
      case Wait
      with ms main_step_task_inv[OF ms, of d] inv show ?thesis
        by (auto simp: once_inv_def seed_inv_def split: if_splits)
    next
      case CloseStatus
      with ms main_step_task_inv[OF ms, of d] inv show ?thesis
        by (auto simp: once_inv_def seed_inv_def crash_def split: option.splits)
    next
      case CloseIO
      with ms main_step_task_inv[OF ms, of d] inv show ?thesis
        by (auto simp: once_inv_def seed_inv_def crash_def split: option.splits)
    next
      case Finish
      with ms main_step_task_inv[OF ms, of d] inv show ?thesis
        by (auto simp: once_inv_def seed_inv_def split: option.splits)
    next
      case (Returned r)
      with ms show ?thesis by simp
    next
      case Panicked
      with ms show ?thesis by simp
    qed
  next
    case (Task k)
    with st ord task[of None k] show ?thesis by (auto split: if_splits)
  next
    case (TaskIter k xs)
    with st ord task[of "Some xs" k] show ?thesis by (auto split: if_splits)
  qed
qed

lemma once_inv_init: "built d \<Longrightarrow> once_inv d (Execute_init d inp)"
  using built_chans[of d]
  by (simp add: once_inv_def task_inv_def seed_inv_def Execute_init_def)

lemma orderly_once_inv:
  assumes "built d" and "exec (Execute_init d inp) sch = Some c"
    and "orderly (Execute_init d inp) sch"
  shows "once_inv d c"
proof -
  from assms(1) have keys: "distinct (map fst (nodes d))" by (rule built_distinct_keys)
  from assms(1) have "once_inv d (Execute_init d inp)" by (rule once_inv_init)
  with assms(2,3) show ?thesis
    by (rule exec_invariant_orderly) (rule step_once_inv[OF _ keys])
qed

text \<open>
  In an orderly run every node is started at most once, and the statuses published for
  a node are \<open>Running\<close> and then \<open>Completed\<close> or \<open>Error\<close>, each at most once.
\<close>

lemma log_ok_cases:
  "log_ok p l \<Longrightarrow> l = [] \<or> l = [Running] \<or> l = [Running, Completed] \<or> l = [Running, Error]"
  by (cases p) auto

lemma orderly_started_once:
  assumes "built d" and "exec (Execute_init d inp) sch = Some c"
    and "orderly (Execute_init d inp) sch"
  shows "distinct (map tid (tasks c))"
  using orderly_once_inv[OF assms] by (simp add: once_inv_def task_inv_def)

lemma orderly_status_monotone:
  assumes "built d" and "exec (Execute_init d inp) sch = Some c"
    and "orderly (Execute_init d inp) sch"
  shows "events_of i (sent (statusChan (dag c))) = []
         \<or> events_of i (sent (statusChan (dag c))) = [Running]
         \<or> events_of i (sent (statusChan (dag c))) = [Running, Completed]
         \<or> events_of i (sent (statusChan (dag c))) = [Running, Error]"
proof (cases "i \<in> tid ` set (tasks c)")
  case True
  then obtain t where "t \<in> set (tasks c)" "tid t = i" by auto
  with orderly_once_inv[OF assms]
  have "log_ok (tpc t) (events_of i (sent (statusChan (dag c))))"
    by (auto simp: once_inv_def task_inv_def)
  then show ?thesis by (rule log_ok_cases)
next
  case False
  with orderly_once_inv[OF assms] show ?thesis by (simp add: once_inv_def task_inv_def)
qed

section \<open>The accounting of the counters in orderly runs\<close>

subsection \<open>The counters of a graph store built through the API\<close>

lemma built_edges_in_graph:
  "built d \<Longrightarrow> \<forall>e \<in> set (gedges (graph d)). fst e \<in> set (gnodes (graph d)) \<and> snd e \<in> set (gnodes (graph d))"
proof (induction rule: built.induct)
  case (built_new m)
  then show ?case by (simp add: NewDAG_def NewDirectedGraph_def)
next
  case (built_node d i n)
  then show ?case by (auto simp: AddNode_def Let_def AddNode_graph_def)
next
  case (built_edge d f t)
  show ?case
  proof (cases "map_of (nodes d) f")
    case None
    with built_edge show ?thesis by (simp add: AddEdge_missing_from)
  next
    case (Some u)
    note fu = this
    show ?thesis
    proof (cases "map_of (nodes d) t")
      case None
      with built_edge fu show ?thesis by (simp add: AddEdge_missing_to)
    next
      case (Some v)
      show ?thesis
      proof (cases "u = v")
        case True
        with built_edge fu Some show ?thesis by (simp add: AddEdge_self)
      next
        case False
        with built_edge.IH fu Some show ?thesis
          by (auto simp: AddEdge_ok addIfMissing_def)
      qed
    qed
  qed
qed

lemma set_update_distinct:
  "distinct (map fst ps) \<Longrightarrow>
   set (AList.update j k ps) = insert (j, k) {p \<in> set ps. fst p \<noteq> j}"
proof (induction ps)
  case Nil
  then show ?case by simp
next
  case (Cons p ps)
  obtain a b where p: "p = (a, b)" by (cases p)
  show ?case
  proof (cases "a = j")
    case True
    with Cons.prems p have "\<forall>q \<in> set ps. fst q \<noteq> j" by auto
    with True p show ?thesis by auto
  next
    case False
    with Cons p show ?thesis by auto
  qed
qed

lemma built_pending: "built d \<Longrightarrow> registered d i \<Longrightarrow> nodeStatus d i = Some Pending"
proof (induction rule: built.induct)
  case (built_new m)
  then show ?case by (simp add: NewDAG_def registered_def)
next
  case (built_node d j n)
  from built_distinct_keys[OF built_node.hyps]
  have "set (AList.update j (NewNode (graph d)) (nodes d))
        = insert (j, NewNode (graph d)) {p \<in> set (nodes d). fst p \<noteq> j}"
    by (rule set_update_distinct)
  with built_node show ?case
    by (auto simp: AddNode_def Let_def registered_def)
next
  case (built_edge d f t)
  then show ?case
    by (auto simp: AddEdge_def registered_def split: option.splits)
qed

text \<open>The counter of a node is at least the number of its incoming edges.\<close>

lemma built_counter:
  "built d \<Longrightarrow>
   int (length (filter (\<lambda>e. idOf d (snd e) = Some i) (gedges (graph d)))) \<le> deg d i"
proof (induction arbitrary: i rule: built.induct)
  case (built_new m)
  then show ?case by (simp add: NewDAG_def NewDirectedGraph_def deg_def)
next
  case (built_node d j n)
  let ?k = "NewNode (graph d)"
  let ?d = "AddNode j n d"
  from built_node.hyps have wf: "wf_dag d" and wf': "wf_dag ?d"
    by (auto intro: built_wf built.intros)
  from wf have fresh: "?k \<notin> set (gnodes (graph d))" by (auto simp: wf_dag_def NewNode_def)
  from built_edges_in_graph[OF built_node.hyps] fresh
  have nk: "\<forall>e \<in> set (gedges (graph d)). snd e \<noteq> ?k" by auto
  from wf wf' have ds: "distinct (map snd (nodes d))" "distinct (map snd (nodes ?d))"
    by (simp_all add: wf_dag_def)
  have nodes': "set (nodes ?d) = insert (j, ?k) {p \<in> set (nodes d). fst p \<noteq> j}"
    using set_update_distinct[OF built_distinct_keys[OF built_node.hyps], of j ?k]
    by (simp add: AddNode_def Let_def)
  have E: "gedges (graph ?d) = gedges (graph d)"
    by (simp add: AddNode_def Let_def AddNode_graph_def)
  show ?case
  proof (cases "i = j")
    case True
    have "filter (\<lambda>e. idOf ?d (snd e) = Some j) (gedges (graph d)) = []"
      using nk by (auto simp: filter_empty_conv idOf_iff[OF ds(2)] nodes')
    with True show ?thesis by (simp add: E) (simp add: AddNode_def Let_def deg_def)
  next
    case False
    have "filter (\<lambda>e. idOf ?d (snd e) = Some i) (gedges (graph d))
          = filter (\<lambda>e. idOf d (snd e) = Some i) (gedges (graph d))"
      using False by (intro filter_cong) (auto simp: idOf_iff[OF ds(2)] idOf_iff[OF ds(1)] nodes')
    moreover have "deg ?d i = deg d i" using False by (simp add: AddNode_def Let_def deg_def)
    ultimately show ?thesis using built_node.IH[of i] by (simp add: E)
  qed
next
  case (built_edge d f t)
  show ?case
  proof (cases "map_of (nodes d) f")
    case None
    with built_edge show ?thesis by (simp add: AddEdge_missing_from)
  next
    case (Some u)
    note fu = this
    show ?thesis
    proof (cases "map_of (nodes d) t")
      case None
      with built_edge fu show ?thesis by (simp add: AddEdge_missing_to)
    next
      case (Some v)
      show ?thesis
      proof (cases "u = v")
        case True
        with built_edge fu Some show ?thesis by (simp add: AddEdge_self)
      next
        case False
        let ?d = "snd (AddEdge f t d)"
        from built_wf[OF built_edge.hyps] have ds: "distinct (map snd (nodes d))"
          by (simp add: wf_dag_def)
        from Some have "(t, v) \<in> set (nodes d)" by (rule map_of_SomeD)
        then have tv: "idOf d v = Some t" by (simp add: idOf_iff[OF ds])
        have id: "idOf ?d = idOf d" using False fu Some by (simp add: AddEdge_ok idOf_def fun_eq_iff)
        have dg: "deg ?d i = (if i = t then deg d t + 1 else deg d i)"
          using False fu Some by (simp add: AddEdge_ok deg_def)
        have "length (filter (\<lambda>e. idOf d (snd e) = Some i) (gedges (graph ?d)))
              \<le> length (filter (\<lambda>e. idOf d (snd e) = Some i) (gedges (graph d)))
                  + (if i = t then 1 else 0)"
          using False fu Some tv by (simp add: AddEdge_ok)
        with built_edge.IH[of i] dg id show ?thesis by (simp split: if_splits)
      qed
    qed
  qed
qed

subsection \<open>The shape of a step of a task\<close>

lemma task_step_shape:
  assumes st: "task_step ord k i p c = Some c'"
  shows "(\<exists>c1. c' = crash c1 \<and> tasks c1 = tasks c \<and> inDegree (dag c1) = inDegree (dag c)
            \<and> statusChan (dag c1) = statusChan (dag c)
            \<and> (nodeStatus (dag c1) = nodeStatus (dag c)
                \<or> (\<exists>s. nodeStatus (dag c1) = (nodeStatus (dag c))(i \<mapsto> s))))
       \<or> (\<exists>c1 p'. c' = setpc k p' c1 \<and> tasks c1 = tasks c \<and> inDegree (dag c1) = inDegree (dag c)
            \<and> (sent (statusChan (dag c1)) = sent (statusChan (dag c))
                  \<and> nodeStatus (dag c1) = nodeStatus (dag c) \<and> is_exit p' = is_exit p
                \<or> (\<exists>s. sent (statusChan (dag c1)) = sent (statusChan (dag c)) @ [NodeState i s]
                      \<and> nodeStatus (dag c1) = (nodeStatus (dag c))(i \<mapsto> s)
                      \<and> \<not> is_exit p \<and> (is_exit p' \<longrightarrow> s = Error))))
       \<or> (p = Release \<and> (\<exists>g gs. map_of (nodes (dag c)) i = Some g
            \<and> mset gs = mset (From (graph (dag c)) g) \<and> c' = setpc k Exit (release gs c)))"
    (is "?crash \<or> ?move \<or> ?rel")
proof -
  have crashI: "?crash" if "c' = crash c1" "tasks c1 = tasks c" "inDegree (dag c1) = inDegree (dag c)"
    "statusChan (dag c1) = statusChan (dag c)"
    "nodeStatus (dag c1) = nodeStatus (dag c) \<or> (\<exists>s. nodeStatus (dag c1) = (nodeStatus (dag c))(i \<mapsto> s))"
    for c1 using that by blast
  have quietI: "?crash \<or> ?move \<or> ?rel" if "c' = setpc k p' c1" "tasks c1 = tasks c"
    "inDegree (dag c1) = inDegree (dag c)" "sent (statusChan (dag c1)) = sent (statusChan (dag c))"
    "nodeStatus (dag c1) = nodeStatus (dag c)" "is_exit p' = is_exit p"
    for c1 p' using that by blast
  have statI: "?crash \<or> ?move \<or> ?rel" if "c' = setpc k p' c1" "tasks c1 = tasks c"
    "inDegree (dag c1) = inDegree (dag c)"
    "sent (statusChan (dag c1)) = sent (statusChan (dag c)) @ [NodeState i s]"
    "nodeStatus (dag c1) = (nodeStatus (dag c))(i \<mapsto> s)" "\<not> is_exit p" "is_exit p' \<longrightarrow> s = Error"
    for c1 p' s using that by blast
  show ?thesis
  proof (cases p)
    case Acquire
    with st have eq: "c' = setpc k SetRunning (c\<lparr>sem := Suc (sem c)\<rparr>)"
      by (simp split: if_splits)
    show ?thesis by (rule quietI[OF eq]) (simp_all add: Acquire)
  next
    case SetRunning
    show ?thesis
    proof (cases "updateNodeStatus i Running (dag c)")
      case (Inl d')
      with st SetRunning have eq: "c' = crash (c\<lparr>dag := d'\<rparr>)" by simp
      show ?thesis
        by (rule disjI1, rule crashI[OF eq]) (use updateNodeStatus_Inl[OF Inl] in auto)
    next
      case (Inr d')
      with st SetRunning have eq: "c' = setpc k Assemble (c\<lparr>dag := d'\<rparr>)" by simp
      show ?thesis
        by (rule statI[OF eq, where s = Running]) (use updateNodeStatus_Inr[OF Inr] SetRunning in auto)
    qed
  next
    case Assemble
    show ?thesis
    proof (cases "map_of (nodes (dag c)) i")
      case None
      with st Assemble have eq: "c' = crash c" by simp
      show ?thesis by (rule disjI1, rule crashI[OF eq]) simp_all
    next
      case (Some g)
      with st Assemble obtain p' where eq: "c' = setpc k p' c" and ne: "\<not> is_exit p'"
        by (auto split: option.splits)
      show ?thesis by (rule quietI[OF eq]) (simp_all add: Assemble ne)
    qed
  next
    case (Collect gs xs)
    show ?thesis
    proof (cases gs)
      case Nil
      show ?thesis
      proof (cases "nodeMap (dag c) i")
        case None
        with st Collect Nil have eq: "c' = crash c" by simp
        show ?thesis by (rule disjI1, rule crashI[OF eq]) simp_all
      next
        case (Some n)
        with st Collect Nil have eq: "c' = setpc k (CallExecute xs) (setNode i (SetInputs n xs) c)"
          by simp
        show ?thesis by (rule quietI[OF eq]) (simp_all add: Collect setNode_def)
      qed
    next
      case (Cons g gs')
      with st Collect obtain p' where eq: "c' = setpc k p' c" and ne: "\<not> is_exit p'" by auto
      show ?thesis by (rule quietI[OF eq]) (simp_all add: Collect ne)
    qed
  next
    case (CallExecute xs)
    show ?thesis
    proof (cases "nodeMap (dag c) i")
      case None
      with st CallExecute have eq: "c' = crash c" by simp
      show ?thesis by (rule disjI1, rule crashI[OF eq]) simp_all
    next
      case (Some n)
      with st CallExecute obtain p' where
        eq: "c' = setpc k p' (setNode i (snd (Execute_node n)) c)" and ne: "\<not> is_exit p'"
        by (auto split: option.splits)
      show ?thesis by (rule quietI[OF eq]) (simp_all add: CallExecute ne setNode_def)
    qed
  next
    case (RecordErr e)
    with st have eq: "c' = setpc k SetError (c\<lparr>execErr := Some e, errLog := errLog c @ [e]\<rparr>)"
      by simp
    show ?thesis by (rule quietI[OF eq]) (simp_all add: RecordErr)
  next
    case SetError
    show ?thesis
    proof (cases "updateNodeStatus i Error (dag c)")
      case (Inl d')
      with st SetError have eq: "c' = crash (c\<lparr>dag := d'\<rparr>)" by simp
      show ?thesis
        by (rule disjI1, rule crashI[OF eq]) (use updateNodeStatus_Inl[OF Inl] in auto)
    next
      case (Inr d')
      with st SetError have eq: "c' = setpc k Exit (c\<lparr>dag := d'\<rparr>)" by simp
      show ?thesis
        by (rule statI[OF eq, where s = Error]) (use updateNodeStatus_Inr[OF Inr] SetError in auto)
    qed
  next
    case (CallGetOutputs xs)
    show ?thesis
    proof (cases "nodeMap (dag c) i")
      case None
      with st CallGetOutputs have eq: "c' = crash c" by simp
      show ?thesis by (rule disjI1, rule crashI[OF eq]) simp_all
    next
      case (Some n)
      with st CallGetOutputs obtain p' where eq: "c' = setpc k p' c" and ne: "\<not> is_exit p'"
        by auto
      show ?thesis by (rule quietI[OF eq]) (simp_all add: CallGetOutputs ne)
    qed
  next
    case (StoreOutputs xs ys)
    with st have eq: "c' = setpc k (SetCompleted xs ys) (c\<lparr>outputs := (outputs c)(i \<mapsto> ys)\<rparr>)"
      by simp
    show ?thesis by (rule quietI[OF eq]) (simp_all add: StoreOutputs)
  next
    case (SetCompleted xs ys)
    show ?thesis
    proof (cases "updateNodeStatus i Completed (dag c)")
      case (Inl d')
      with st SetCompleted have eq: "c' = crash (c\<lparr>dag := d'\<rparr>)" by simp
      show ?thesis
        by (rule disjI1, rule crashI[OF eq]) (use updateNodeStatus_Inl[OF Inl] in auto)
    next
      case (Inr d')
      with st SetCompleted have eq: "c' = setpc k (NotifyIO xs ys) (c\<lparr>dag := d'\<rparr>)" by simp
      show ?thesis
        by (rule statI[OF eq, where s = Completed]) (use updateNodeStatus_Inr[OF Inr] SetCompleted in auto)
    qed
  next
    case (NotifyIO xs ys)
    show ?thesis
    proof (cases "notifyNodeIO i xs ys (dag c)")
      case None
      with st NotifyIO have eq: "c' = crash c" by simp
      show ?thesis by (rule disjI1, rule crashI[OF eq]) simp_all
    next
      case (Some d')
      with st NotifyIO have eq: "c' = setpc k Release (c\<lparr>dag := d'\<rparr>)" by simp
      show ?thesis
        by (rule quietI[OF eq]) (use notifyNodeIO_Some[OF Some] NotifyIO in auto)
    qed
  next
    case Release
    show ?thesis
    proof (cases "map_of (nodes (dag c)) i")
      case None
      with st Release have eq: "c' = crash c" by simp
      show ?thesis by (rule disjI1, rule crashI[OF eq]) simp_all
    next
      case (Some g)
      with st Release show ?thesis by (auto split: option.splits dest: iterate_Some)
    qed
  next
    case Exit
    with st have eq: "c' = setpc k Done (c\<lparr>sem := sem c - 1, wg := wg c - 1\<rparr>)" by simp
    show ?thesis by (rule quietI[OF eq]) (simp_all add: Exit)
  next
    case Done
    with st show ?thesis by simp
  qed
qed

subsection \<open>The nodes that have released their successors\<close>

lemma released_ids_cong:
  "tasks c1 = tasks c \<Longrightarrow> sent (statusChan (dag c1)) = sent (statusChan (dag c)) \<Longrightarrow>
   released_ids c1 = released_ids c"
  by (simp add: released_ids_def)

lemma released_ids_append:
  assumes "tasks c1 = tasks c @ ts" and "\<forall>t \<in> set ts. tpc t = Acquire"
    and "sent (statusChan (dag c1)) = sent (statusChan (dag c))"
  shows "released_ids c1 = released_ids c"
  using assms by (auto simp: released_ids_def)

lemma own_released_iff:
  assumes "distinct (map tid (tasks c))" and "k < length (tasks c)"
  shows "tid (tasks c ! k) \<in> released_ids c \<longleftrightarrow>
         is_exit (tpc (tasks c ! k))
         \<and> events_of (tid (tasks c ! k)) (sent (statusChan (dag c))) = [Running, Completed]"
proof
  assume "tid (tasks c ! k) \<in> released_ids c"
  then obtain t where t: "t \<in> set (tasks c)" "tid t = tid (tasks c ! k)" "is_exit (tpc t)"
    "events_of (tid t) (sent (statusChan (dag c))) = [Running, Completed]"
    by (auto simp: released_ids_def)
  from t(1) obtain m where m: "m < length (tasks c)" "tasks c ! m = t"
    by (auto simp: in_set_conv_nth)
  with t(2) assms have "m = k"
    by (metis distinct_conv_nth length_map nth_map)
  with m t show "is_exit (tpc (tasks c ! k))
         \<and> events_of (tid (tasks c ! k)) (sent (statusChan (dag c))) = [Running, Completed]"
    by simp
next
  assume "is_exit (tpc (tasks c ! k))
         \<and> events_of (tid (tasks c ! k)) (sent (statusChan (dag c))) = [Running, Completed]"
  with assms(2) show "tid (tasks c ! k) \<in> released_ids c"
    unfolding released_ids_def by (metis (mono_tags, lifting) mem_Collect_eq nth_mem)
qed

lemma other_released_setpc:
  assumes "k < length (tasks c)" and "q \<noteq> tid (tasks c ! k)"
  shows "q \<in> released_ids (setpc k p' c) \<longleftrightarrow> q \<in> released_ids c"
proof
  assume "q \<in> released_ids (setpc k p' c)"
  then obtain t where t: "t \<in> set (tasks (setpc k p' c))" "tid t = q" "is_exit (tpc t)"
    "events_of q (sent (statusChan (dag c))) = [Running, Completed]"
    by (auto simp: released_ids_def)
  from t(1) obtain m where m: "m < length (tasks c)" "tasks (setpc k p' c) ! m = t"
    by (auto simp: in_set_conv_nth)
  with t(2) assms have "m \<noteq> k" by (auto simp: setpc_nth)
  with m assms(1) have "tasks c ! m = t" by (simp add: setpc_nth)
  with m(1) have "t \<in> set (tasks c)" by (metis nth_mem)
  with t show "q \<in> released_ids c" by (auto simp: released_ids_def)
next
  assume "q \<in> released_ids c"
  then obtain t where t: "t \<in> set (tasks c)" "tid t = q" "is_exit (tpc t)"
    "events_of q (sent (statusChan (dag c))) = [Running, Completed]"
    by (auto simp: released_ids_def)
  with assms(2) have "t \<in> set (tasks (setpc k p' c))" by (intro witness_other) simp_all
  with t show "q \<in> released_ids (setpc k p' c)" by (auto simp: released_ids_def)
qed

lemma released_ids_setpc:
  assumes dist: "distinct (map tid (tasks c))" and k: "k < length (tasks c)"
  shows "released_ids (setpc k p' c) =
           (released_ids c - {tid (tasks c ! k)}) \<union>
           (if is_exit p' \<and> events_of (tid (tasks c ! k)) (sent (statusChan (dag c))) = [Running, Completed]
            then {tid (tasks c ! k)} else {})"
proof -
  let ?j = "tid (tasks c ! k)"
  have d': "distinct (map tid (tasks (setpc k p' c)))" using dist by (simp add: map_tid_setpc)
  have k': "k < length (tasks (setpc k p' c))" using k by simp
  have nk: "tid (tasks (setpc k p' c) ! k) = ?j" "tpc (tasks (setpc k p' c) ! k) = p'"
    using k by (simp_all add: setpc_nth)
  from own_released_iff[OF d' k'] nk
  have own: "?j \<in> released_ids (setpc k p' c) \<longleftrightarrow>
      is_exit p' \<and> events_of ?j (sent (statusChan (dag c))) = [Running, Completed]"
    by simp
  show ?thesis
  proof (intro set_eqI iffI)
    fix q assume q: "q \<in> released_ids (setpc k p' c)"
    show "q \<in> (released_ids c - {?j}) \<union>
           (if is_exit p' \<and> events_of ?j (sent (statusChan (dag c))) = [Running, Completed]
            then {?j} else {})"
    proof (cases "q = ?j")
      case True
      with q own show ?thesis by simp
    next
      case False
      with q other_released_setpc[OF k False, of p'] show ?thesis by simp
    qed
  next
    fix q assume q: "q \<in> (released_ids c - {?j}) \<union>
           (if is_exit p' \<and> events_of ?j (sent (statusChan (dag c))) = [Running, Completed]
            then {?j} else {})"
    show "q \<in> released_ids (setpc k p' c)"
    proof (cases "q = ?j")
      case True
      with q own show ?thesis by (auto split: if_splits)
    next
      case False
      with q other_released_setpc[OF k False, of p'] show ?thesis by (auto split: if_splits)
    qed
  qed
qed

text \<open>The effect of an event of node \<open>j\<close> on the other nodes: none.\<close>

lemma released_ids_event:
  assumes "tasks c1 = tasks c"
    and "sent (statusChan (dag c1)) = sent (statusChan (dag c)) @ [NodeState j s]"
  shows "released_ids c1 - {j} = released_ids c - {j}"
  using assms by (auto simp: released_ids_def events_of_append)

lemma filter_split_length:
  assumes "\<forall>e \<in> set es. \<not> (B e \<and> C e)"
  shows "length (filter (\<lambda>e. A e \<and> (B e \<or> C e)) es)
         = length (filter (\<lambda>e. A e \<and> B e) es) + length (filter (\<lambda>e. A e \<and> C e) es)"
  using assms by (induction es) auto

lemma From_count:
  "length (filter (\<lambda>v. f v = Some i) (From g u))
   = length (filter (\<lambda>e. fst e = u \<and> f (snd e) = Some i) (gedges g))"
proof -
  have "filter (\<lambda>v. f v = Some i) (From g u)
        = map snd (filter (\<lambda>e. f (snd e) = Some i) (filter (\<lambda>e. fst e = u) (gedges g)))"
    by (simp add: From_def filter_map comp_def)
  then show ?thesis by simp
qed

lemma release_deg:
  "deg (dag (release ks c)) i
   = deg (dag c) i - int (length (filter (\<lambda>v. idOf (dag c) v = Some i) ks))"
proof (induction ks arbitrary: c)
  case Nil
  then show ?case by simp
next
  case (Cons k ks)
  have id: "idOf (dag (spawn j (decrement j c))) = idOf (dag c)"
    "idOf (dag (decrement j c)) = idOf (dag c)" for j
    by (simp_all add: idOf_def spawn_def decrement_def fun_eq_iff)
  have dg: "deg (dag (spawn j (decrement j c))) i = deg (dag (decrement j c)) i" for j
    by (simp add: spawn_def)
  show ?case
  proof (cases "idOf (dag c) k")
    case None
    with Cons.IH[of c] show ?thesis by simp
  next
    case (Some j)
    show ?thesis
    proof (cases "deg (dag (decrement j c)) j = 0")
      case True
      with Some Cons.IH[of "spawn j (decrement j c)"] show ?thesis
        by (simp add: id dg deg_decrement)
    next
      case False
      with Some Cons.IH[of "decrement j c"] show ?thesis
        by (simp add: id deg_decrement)
    qed
  qed
qed

lemma main_step_shape:
  assumes "main_step q c = Some c'"
  shows "inDegree (dag c') = inDegree (dag c) \<and> nodeStatus (dag c') = nodeStatus (dag c)
         \<and> sent (statusChan (dag c')) = sent (statusChan (dag c))
         \<and> (\<exists>ts. tasks c' = tasks c @ ts \<and> (\<forall>t \<in> set ts. tpc t = Acquire))"
proof (cases q)
  case (Seed ns)
  show ?thesis
  proof (cases ns)
    case Nil
    with assms Seed show ?thesis by auto
  next
    case (Cons n ns')
    with assms Seed have c': "c' = (seed n (nodes (dag c)) c)\<lparr>mainpc := Seed ns'\<rparr>" by simp
    from seed_tasks[of n "nodes (dag c)" c] show ?thesis by (simp add: c' seed_frame)
  qed
qed (use assms in \<open>auto simp: crash_def chan_close_def split: option.splits if_splits\<close>)

lemma count_inv_keep:
  assumes "count_inv d c" and "inDegree (dag c') = inDegree (dag c)"
    and "released_ids c' = released_ids c"
    and "tid ` set (tasks c) \<subseteq> tid ` set (tasks c')"
    and "\<forall>i. i \<notin> tid ` set (tasks c') \<longrightarrow> nodeStatus (dag c') i = nodeStatus (dag c) i"
  shows "count_inv d c'"
proof -
  from assms(3) have "released_node d c' = released_node d c"
    by (simp add: released_node_def fun_eq_iff)
  moreover have "nodeStatus (dag c') i = nodeStatus d i" if "i \<notin> tid ` set (tasks c')" for i
  proof -
    from that assms(4) have "i \<notin> tid ` set (tasks c)" by blast
    with assms(1) have "nodeStatus (dag c) i = nodeStatus d i" by (simp add: count_inv_def)
    with that assms(5) show ?thesis by simp
  qed
  ultimately show ?thesis
    using assms(1) deg_cong[OF assms(2)] unfolding count_inv_def by simp
qed

lemma tids_setpc: "tid ` set (tasks (setpc k p c)) = tid ` set (tasks c)"
  by (metis list.set_map map_tid_setpc)

lemma events_not_completed:
  "events_of j l @ [Error] \<noteq> [Running, Completed]"
  by (cases "events_of j l" rule: rev_cases) auto

lemma step_count_inv:
  assumes b: "built d" and o: "once_inv d c" and ci: "count_inv d c"
    and st: "step c a = Some c'"
  shows "count_inv d c'"
proof -
  have task: "count_inv d c'"
    if ts: "task_step ord k (tid (tasks c ! k)) (tpc (tasks c ! k)) c = Some c'"
      and k: "k < length (tasks c)" for ord k
  proof -
    let ?i = "tid (tasks c ! k)" and ?p = "tpc (tasks c ! k)"
    let ?l = "sent (statusChan (dag c))"
    from o have ti: "task_inv d c" by (simp add: once_inv_def)
    then have dist: "distinct (map tid (tasks c))" and nd: "nodes (dag c) = nodes d"
      by (simp_all add: task_inv_def)
    from o have gr: "graph (dag c) = graph d" by (simp add: once_inv_def seed_inv_def)
    from k have iin: "?i \<in> tid ` set (tasks c)" by (metis image_eqI nth_mem)
    note own = own_released_iff[OF dist k]
    from task_step_shape[OF ts] consider
      (crash) c1 where "c' = crash c1" "tasks c1 = tasks c" "inDegree (dag c1) = inDegree (dag c)"
        "statusChan (dag c1) = statusChan (dag c)"
        "nodeStatus (dag c1) = nodeStatus (dag c) \<or> (\<exists>s. nodeStatus (dag c1) = (nodeStatus (dag c))(?i \<mapsto> s))"
    | (quiet) c1 p' where "c' = setpc k p' c1" "tasks c1 = tasks c" "inDegree (dag c1) = inDegree (dag c)"
        "sent (statusChan (dag c1)) = ?l" "nodeStatus (dag c1) = nodeStatus (dag c)"
        "is_exit p' = is_exit ?p"
    | (status) c1 p' s where "c' = setpc k p' c1" "tasks c1 = tasks c"
        "inDegree (dag c1) = inDegree (dag c)"
        "sent (statusChan (dag c1)) = ?l @ [NodeState ?i s]"
        "nodeStatus (dag c1) = (nodeStatus (dag c))(?i \<mapsto> s)" "\<not> is_exit ?p" "is_exit p' \<longrightarrow> s = Error"
    | (release) g gs where "?p = Release" "map_of (nodes (dag c)) ?i = Some g"
        "mset gs = mset (From (graph (dag c)) g)" "c' = setpc k Exit (release gs c)"
      by blast
    then show ?thesis
    proof cases
      case crash
      from crash(1,2,4) have "released_ids c' = released_ids c"
        by (intro released_ids_cong) (simp_all add: crash_def)
      with crash iin show ?thesis
        by (intro count_inv_keep[OF ci]) (auto simp: crash_def)
    next
      case quiet
      from dist k quiet(2) have d1: "distinct (map tid (tasks c1))" "k < length (tasks c1)" by simp_all
      from quiet(2,4) have r1: "released_ids c1 = released_ids c" by (rule released_ids_cong)
      from released_ids_setpc[OF d1, of p'] quiet r1 own
      have "released_ids c' = released_ids c" by auto
      with quiet show ?thesis
        by (intro count_inv_keep[OF ci]) (simp_all add: tids_setpc)
    next
      case status
      from dist k status(2) have d1: "distinct (map tid (tasks c1))" "k < length (tasks c1)" by simp_all
      from released_ids_event[OF status(2,4)]
      have r1: "released_ids c1 - {?i} = released_ids c - {?i}" .
      from own status(6) have ni: "?i \<notin> released_ids c" by simp
      have "\<not> (is_exit p' \<and> events_of ?i (sent (statusChan (dag c1))) = [Running, Completed])"
        using status(4,7) by (auto simp: events_of_append events_not_completed)
      with released_ids_setpc[OF d1, of p'] status(1,2) r1 ni
      have "released_ids c' = released_ids c" by auto
      with status iin show ?thesis
        by (intro count_inv_keep[OF ci]) (auto simp: tids_setpc)
    next
      case release
      let ?r = "release gs c"
      let ?E = "gedges (graph d)"
      from ti have tr: "task_inv d ?r" by (rule task_inv_release)
      then have dr: "distinct (map tid (tasks ?r))" by (simp add: task_inv_def)
      have kr: "k < length (tasks ?r)" using k release_length[of c] by (meson less_le_trans)
      have nr: "tasks ?r ! k = tasks c ! k" using release_nth[OF k] by simp
      from release_tasks[of gs c] obtain ts where
        tsr: "tasks ?r = tasks c @ ts" "\<forall>t \<in> set ts. tpc t = Acquire" by blast
      have lr: "sent (statusChan (dag ?r)) = ?l" by (simp add: release_frame)
      from released_ids_append[OF tsr lr] have rr: "released_ids ?r = released_ids c" .
      from task_log[OF ti k] release(1) have ev: "events_of ?i ?l = [Running, Completed]" by simp
      from own release(1) have ni: "?i \<notin> released_ids c" by simp
      from released_ids_setpc[OF dr kr, of Exit] nr lr rr ev ni release(4)
      have rel': "released_ids c' = insert ?i (released_ids c)" by simp
      from built_distinct_keys[OF b] have keys: "distinct (map fst (nodes d))" .
      from built_wf[OF b] have vals: "distinct (map snd (nodes d))" by (simp add: wf_dag_def)
      from release(2) nd have ig: "(?i, g) \<in> set (nodes d)" by (auto dest: map_of_SomeD)
      have node': "released_node d c' u \<longleftrightarrow> released_node d c u \<or> u = g" for u
      proof
        assume "released_node d c' u"
        then obtain q where q: "q \<in> released_ids c'" "(q, u) \<in> set (nodes d)"
          unfolding released_node_def by blast
        show "released_node d c u \<or> u = g"
        proof (cases "q = ?i")
          case True
          with q(2) have "(?i, u) \<in> set (nodes d)" by simp
          from distinct_keys_unique[OF keys ig this] show ?thesis by simp
        next
          case False
          with q(1) rel' have "q \<in> released_ids c" by simp
          with q(2) show ?thesis unfolding released_node_def by blast
        qed
      next
        assume "released_node d c u \<or> u = g"
        then show "released_node d c' u"
        proof
          assume "released_node d c u"
          then show ?thesis unfolding released_node_def rel' by blast
        next
          assume "u = g"
          with ig show ?thesis unfolding released_node_def rel' by blast
        qed
      qed
      have notg: "\<not> released_node d c g"
      proof
        assume "released_node d c g"
        then obtain q where q: "q \<in> released_ids c" "(q, g) \<in> set (nodes d)"
          by (auto simp: released_node_def)
        from idOf_iff[OF vals, of g q] idOf_iff[OF vals, of g ?i] q(2) ig have "q = ?i" by simp
        with q(1) ni show False by simp
      qed
      have cnt: "length (filter (\<lambda>e. idOf d (snd e) = Some i \<and> released_node d c' (fst e)) ?E)
          = length (filter (\<lambda>e. idOf d (snd e) = Some i \<and> released_node d c (fst e)) ?E)
            + length (filter (\<lambda>e. idOf d (snd e) = Some i \<and> fst e = g) ?E)" for i
        unfolding node' using notg by (intro filter_split_length) auto
      have idc: "idOf (dag c) = idOf d" using nd by (simp add: idOf_def fun_eq_iff)
      have "deg (dag c') i = deg (dag c) i
            - int (length (filter (\<lambda>e. idOf d (snd e) = Some i \<and> fst e = g) ?E))" for i
      proof -
        have "filter (\<lambda>e. fst e = g \<and> idOf d (snd e) = Some i) ?E
              = filter (\<lambda>e. idOf d (snd e) = Some i \<and> fst e = g) ?E"
          by (intro filter_cong) auto
        with release_deg[of gs c i] From_count[of "idOf d" i "graph d" g]
          mset_filter_length[OF release(3), of "\<lambda>v. idOf d v = Some i"]
        show ?thesis by (simp add: release(4) idc gr)
      qed
      with ci cnt have c1: "\<forall>i. deg (dag c') i =
            deg d i - int (length (filter (\<lambda>e. idOf d (snd e) = Some i \<and> released_node d c' (fst e)) ?E))"
        by (simp add: count_inv_def)
      have sub: "tid ` set (tasks c) \<subseteq> tid ` set (tasks c')"
        using tsr(1) by (auto simp: release(4) tids_setpc)
      have ns: "nodeStatus (dag c') = nodeStatus (dag c)"
        by (simp add: release(4) release_frame)
      have "nodeStatus (dag c') i = nodeStatus d i" if "i \<notin> tid ` set (tasks c')" for i
      proof -
        from that sub have "i \<notin> tid ` set (tasks c)" by blast
        with ci ns show ?thesis by (simp add: count_inv_def)
      qed
      with c1 show ?thesis by (simp add: count_inv_def)
    qed
  qed
  show ?thesis
  proof (cases a)
    case (SortOk xs)
    with st have "c' = crash c \<or> c' = c\<lparr>mainpc := Seed xs\<rparr>"
      by (auto split: mainpc.splits if_splits)
    then show ?thesis
      by (intro count_inv_keep[OF ci]) (auto simp: crash_def released_ids_def)
  next
    case Main
    with st have ms: "main_step (mainpc c) c = Some c'" by (auto split: if_splits)
    from main_step_shape[OF ms] obtain ts where
      f: "inDegree (dag c') = inDegree (dag c)" "nodeStatus (dag c') = nodeStatus (dag c)"
        "sent (statusChan (dag c')) = sent (statusChan (dag c))"
      and ts: "tasks c' = tasks c @ ts" "\<forall>t \<in> set ts. tpc t = Acquire" by blast
    from released_ids_append[OF ts f(3)] f ts(1) show ?thesis
      by (intro count_inv_keep[OF ci]) auto
  next
    case (Task k)
    with st task[of None k] show ?thesis by (auto split: if_splits)
  next
    case (TaskIter k xs)
    with st task[of "Some xs" k] show ?thesis by (auto split: if_splits)
  qed
qed

lemma count_inv_init: "count_inv d (Execute_init d inp)"
  by (simp add: count_inv_def Execute_init_def released_node_def released_ids_def)

lemma orderly_count_inv:
  assumes "built d" and "exec (Execute_init d inp) sch = Some c"
    and "orderly (Execute_init d inp) sch"
  shows "once_inv d c \<and> count_inv d c"
proof -
  from assms(1) have keys: "distinct (map fst (nodes d))" by (rule built_distinct_keys)
  from assms(1) have "once_inv d (Execute_init d inp) \<and> count_inv d (Execute_init d inp)"
    by (simp add: once_inv_init count_inv_init)
  with assms(2,3) show ?thesis
  proof (rule exec_invariant_orderly)
    fix c a c'
    assume "once_inv d c \<and> count_inv d c" and "step c a = Some c'"
      and "\<not> (is_Task a \<and> seeding (mainpc c))"
    then show "once_inv d c' \<and> count_inv d c'"
      using step_once_inv[OF _ keys, of c a c'] step_count_inv[OF assms(1), of c a c'] by blast
  qed
qed

lemma filter_conj_le: "length (filter (\<lambda>x. A x \<and> B x) xs) \<le> length (filter A xs)"
  by (induction xs) auto

lemma filter_conj_all:
  "length (filter (\<lambda>x. A x \<and> B x) xs) = length (filter A xs) \<Longrightarrow> x \<in> set xs \<Longrightarrow> A x \<Longrightarrow> B x"
proof (induction xs)
  case Nil
  then show ?case by simp
next
  case (Cons a xs)
  have le: "length (filter (\<lambda>x. A x \<and> B x) xs) \<le> length (filter A xs)" by (rule filter_conj_le)
  show ?case
  proof (cases "A a")
    case True
    with Cons.prems(1) le have ba: "B a" and eq: "length (filter (\<lambda>x. A x \<and> B x) xs) = length (filter A xs)"
      by (auto split: if_splits)
    with Cons show ?thesis by auto
  next
    case False
    with Cons show ?thesis by auto
  qed
qed

text \<open>
  In an orderly run, a node has a task only when every node with an edge to it has
  released its successors.
\<close>

lemma preds_released:
  assumes b: "built d" and o: "once_inv d c" and ci: "count_inv d c"
    and t: "t \<in> set (tasks c)" and e: "e \<in> set (gedges (graph d))"
    and i: "idOf d (snd e) = Some (tid t)"
  shows "released_node d c (fst e)"
proof -
  let ?A = "\<lambda>e. idOf d (snd e) = Some (tid t)"
  let ?E = "gedges (graph d)"
  from o t have "deg (dag c) (tid t) \<le> 0" by (simp add: once_inv_def task_inv_def)
  moreover from ci have "deg (dag c) (tid t)
      = deg d (tid t) - int (length (filter (\<lambda>e. ?A e \<and> released_node d c (fst e)) ?E))"
    by (simp add: count_inv_def)
  moreover from built_counter[OF b, of "tid t"] have "int (length (filter ?A ?E)) \<le> deg d (tid t)" .
  moreover have "length (filter (\<lambda>e. ?A e \<and> released_node d c (fst e)) ?E) \<le> length (filter ?A ?E)"
    by (rule filter_conj_le)
  ultimately have "length (filter (\<lambda>e. ?A e \<and> released_node d c (fst e)) ?E) = length (filter ?A ?E)"
    by linarith
  from filter_conj_all[OF this e i] show ?thesis .
qed

lemma released_ids_tasks: "released_ids c \<subseteq> tid ` set (tasks c)"
  by (auto simp: released_ids_def)

text \<open>
  In an orderly run, the nodes below a failed node (along one edge or more) get no
  task: nothing is published for them and they keep the status \<open>Pending\<close>.
\<close>

lemma orderly_failed_blocks_successors:
  assumes b: "built d" and ex: "exec (Execute_init d inp) sch = Some c"
    and ord: "orderly (Execute_init d inp) sch"
    and failed: "events_of x (sent (statusChan (dag c))) = [Running, Error]"
    and xu: "(x, u) \<in> set (nodes d)" and path: "(u, v) \<in> (set (gedges (graph d)))\<^sup>+"
    and yv: "(y, v) \<in> set (nodes d)"
  shows "y \<notin> tid ` set (tasks c) \<and> events_of y (sent (statusChan (dag c))) = []
         \<and> nodeStatus (dag c) y = Some Pending"
proof -
  from orderly_count_inv[OF b ex ord] have o: "once_inv d c" and ci: "count_inv d c" by simp_all
  from built_wf[OF b] have vals: "distinct (map snd (nodes d))" by (simp add: wf_dag_def)
  have start: "\<not> released_node d c u"
  proof
    assume "released_node d c u"
    then obtain q where q: "q \<in> released_ids c" "(q, u) \<in> set (nodes d)"
      unfolding released_node_def by blast
    from idOf_iff[OF vals, of u q] idOf_iff[OF vals, of u x] q(2) xu have "q = x" by simp
    with q(1) have "events_of x (sent (statusChan (dag c))) = [Running, Completed]"
      by (auto simp: released_ids_def)
    with failed show False by simp
  qed
  have along: "(\<forall>y'. (y', v') \<in> set (nodes d) \<longrightarrow> y' \<notin> tid ` set (tasks c)) \<and> \<not> released_node d c v'"
    if w: "\<not> released_node d c w" and e: "(w, v') \<in> set (gedges (graph d))" for w v'
  proof -
    have no: "y' \<notin> tid ` set (tasks c)" if y': "(y', v') \<in> set (nodes d)" for y'
    proof
      assume "y' \<in> tid ` set (tasks c)"
      then obtain t where t: "t \<in> set (tasks c)" "tid t = y'" by auto
      from y' t(2) have "idOf d (snd (w, v')) = Some (tid t)" by (simp add: idOf_iff[OF vals])
      from preds_released[OF b o ci t(1) e this] w show False by simp
    qed
    have "\<not> released_node d c v'"
    proof
      assume "released_node d c v'"
      then obtain q where q: "q \<in> released_ids c" "(q, v') \<in> set (nodes d)"
        unfolding released_node_def by blast
      from q(1) released_ids_tasks have "q \<in> tid ` set (tasks c)" by blast
      with no[OF q(2)] show False by simp
    qed
    with no show ?thesis by blast
  qed
  from path have "(\<forall>y'. (y', v) \<in> set (nodes d) \<longrightarrow> y' \<notin> tid ` set (tasks c)) \<and> \<not> released_node d c v"
  proof (induction rule: trancl_induct)
    case (base v1)
    from along[OF start this] show ?case .
  next
    case (step v1 v2)
    from step.IH have "\<not> released_node d c v1" by simp
    from along[OF this step.hyps(2)]
    show ?case .
  qed
  with yv have nt: "y \<notin> tid ` set (tasks c)" by blast
  with o have ev: "events_of y (sent (statusChan (dag c))) = []"
    by (simp add: once_inv_def task_inv_def)
  from yv have "registered d y" by (force simp: registered_def)
  with built_pending[OF b] have "nodeStatus d y = Some Pending" by simp
  with ci nt have "nodeStatus (dag c) y = Some Pending" by (simp add: count_inv_def)
  with nt ev show ?thesis by simp
qed


subsection \<open>Assembled inputs in orderly runs\<close>

lemma io_inv_cong:
  assumes "io_inv d inp c" and "tasks c1 = tasks c" and "inputs c1 = inputs c"
    and "outputs c1 = outputs c" and "sent (statusChan (dag c1)) = sent (statusChan (dag c))"
  shows "io_inv d inp c1"
  using assms by (simp add: io_inv_def)

text \<open>A step of task \<open>k\<close>, seen from the output table.\<close>

lemma io_inv_move:
  assumes io: "io_inv d inp c" and k: "k < length (tasks c)"
    and c1: "tasks c1 = tasks c @ ts" "\<forall>t \<in> set ts. tpc t = Acquire" "inputs c1 = inputs c"
    and others: "\<forall>t \<in> set (tasks c). collect_ok d inp (outputs c1) (tid t) (tpc t)"
    and mono: "\<forall>i. outputs c i \<noteq> None \<longrightarrow> outputs c1 i \<noteq> None"
    and new: "collect_ok d inp (outputs c1) (tid (tasks c ! k)) p'"
      "\<forall>xs ys. p' = SetCompleted xs ys \<longrightarrow> outputs c1 (tid (tasks c ! k)) \<noteq> None"
    and log: "\<forall>i. events_of i (sent (statusChan (dag c1))) = [Running, Completed] \<longrightarrow>
                events_of i (sent (statusChan (dag c))) = [Running, Completed] \<or> outputs c1 i \<noteq> None"
  shows "io_inv d inp (setpc k p' c1)"
proof -
  let ?c = "setpc k p' c1"
  have k1: "k < length (tasks c1)" using k c1(1) by simp
  have each: "collect_ok d inp (outputs ?c) (tid t) (tpc t) \<and>
        (\<forall>xs ys. tpc t = SetCompleted xs ys \<longrightarrow> outputs ?c (tid t) \<noteq> None)"
    if "t \<in> set (tasks ?c)" for t
  proof -
    from that obtain m where m: "m < length (tasks c1)" "tasks ?c ! m = t"
      by (auto simp: in_set_conv_nth)
    consider "m = k" | "m \<noteq> k" "m < length (tasks c)" | "m \<noteq> k" "length (tasks c) \<le> m"
      by linarith
    then show ?thesis
    proof cases
      case 1
      with m k1 k c1(1) have "tid t = tid (tasks c ! k)" "tpc t = p'"
        by (auto simp: setpc_nth nth_append)
      with new show ?thesis by simp
    next
      case 2
      with m k1 c1(1) have t: "t = tasks c ! m" by (auto simp: setpc_nth nth_append)
      with 2 have tin: "t \<in> set (tasks c)" by simp
      with io have "\<forall>xs ys. tpc t = SetCompleted xs ys \<longrightarrow> outputs c (tid t) \<noteq> None"
        by (simp add: io_inv_def)
      with mono others tin show ?thesis by auto
    next
      case 3
      with m k1 c1(1) have "t = ts ! (m - length (tasks c))" "m - length (tasks c) < length ts"
        by (auto simp: setpc_nth nth_append)
      then have "t \<in> set ts" by simp
      with c1(2) show ?thesis by simp
    qed
  qed
  have "outputs ?c i \<noteq> None" if "events_of i (sent (statusChan (dag ?c))) = [Running, Completed]" for i
    using that log io mono by (auto simp: io_inv_def)
  with each io c1(3) show ?thesis by (simp add: io_inv_def)
qed

lemma events_end_Running: "events_of j l @ [Running] \<noteq> [Running, Completed]"
  by (cases "events_of j l" rule: rev_cases) auto

lemma To_edge: "w \<in> set (To g v) \<longleftrightarrow> (w, v) \<in> set (gedges g)"
  by (force simp: To_def)

text \<open>The predecessors of a node that has a task are not about to store their outputs.\<close>

lemma pred_not_storing:
  assumes b: "built d" and o: "once_inv d c" and ci: "count_inv d c"
    and t: "t \<in> set (tasks c)" and tv: "(tid t, v) \<in> set (nodes d)"
    and w: "w \<in> set (To (graph d) v)" and p: "idOf d w = Some p"
  shows "p \<in> released_ids c"
proof -
  from built_wf[OF b] have vals: "distinct (map snd (nodes d))" by (simp add: wf_dag_def)
  from w have e: "(w, v) \<in> set (gedges (graph d))" by (simp add: To_edge)
  from tv have "idOf d (snd (w, v)) = Some (tid t)" by (simp add: idOf_iff[OF vals])
  from preds_released[OF b o ci t e this] obtain q where
    q: "q \<in> released_ids c" "(q, w) \<in> set (nodes d)"
    unfolding released_node_def by auto
  from q(2) have "idOf d w = Some q" by (simp add: idOf_iff[OF vals])
  with p have "q = p" by simp
  with q(1) show ?thesis by simp
qed

lemma assembled_outputs_cong:
  assumes "assembled d inp outs i gs acc"
    and "\<forall>v w. (i, v) \<in> set (nodes d) \<longrightarrow> w \<in> set (To (graph d) v) \<longrightarrow> contrib d outs' w = contrib d outs w"
  shows "assembled d inp outs' i gs acc"
proof -
  from assms(1) obtain v visited where v: "(i, v) \<in> set (nodes d)"
    "mset (To (graph d) v) = mset (visited @ gs)"
    "acc = initial inp i @ concat (map (contrib d outs) visited)"
    unfolding assembled_def by blast
  from v(2) have "set (To (graph d) v) = set (visited @ gs)" by (rule mset_eq_setD)
  then have "set visited \<subseteq> set (To (graph d) v)" by simp
  with v(1) assms(2) have "map (contrib d outs') visited = map (contrib d outs) visited"
    by (intro map_cong) auto
  with v show ?thesis unfolding assembled_def by metis
qed

lemma collect_next:
  "(case idOf d g of
      None \<Rightarrow> acc
    | Some fromID \<Rightarrow> (case outs fromID of None \<Rightarrow> acc | Some output \<Rightarrow> acc @ output))
   = acc @ contrib d outs g"
  by (simp add: contrib_def split: option.splits)

lemma task_step_io_inv:
  assumes b: "built d" and o: "once_inv d c" and ci: "count_inv d c" and io: "io_inv d inp c"
    and st: "task_step ord k i p c = Some c'" and k: "k < length (tasks c)"
    and p: "tpc (tasks c ! k) = p" and i: "tid (tasks c ! k) = i"
  shows "io_inv d inp c'"
proof -
  let ?l = "sent (statusChan (dag c))"
  from o have ti: "task_inv d c" and gr: "graph (dag c) = graph d"
    by (simp_all add: once_inv_def seed_inv_def)
  then have nd: "nodes (dag c) = nodes d" and dist: "distinct (map tid (tasks c))"
    by (simp_all add: task_inv_def)
  have idc: "idOf (dag c) = idOf d" using nd by (simp add: idOf_def fun_eq_iff)
  from io have inp: "inputs c = inp" by (simp add: io_inv_def)
  from io have others: "\<forall>t \<in> set (tasks c). collect_ok d inp (outputs c) (tid t) (tpc t)"
    by (simp add: io_inv_def)
  from others k p i have own: "collect_ok d inp (outputs c) i p" by (metis nth_mem)
  have crashed: "io_inv d inp (crash c1)" if "tasks c1 = tasks c" "inputs c1 = inputs c"
    "outputs c1 = outputs c" "sent (statusChan (dag c1)) = ?l" for c1
    using that by (intro io_inv_cong[OF io]) (simp_all add: crash_def)
  have quiet: "io_inv d inp (setpc k p' c1)" if "tasks c1 = tasks c" "inputs c1 = inputs c"
    "outputs c1 = outputs c" "sent (statusChan (dag c1)) = ?l"
    "collect_ok d inp (outputs c) i p'" "\<forall>xs ys. p' \<noteq> SetCompleted xs ys" for c1 p'
    using that others i by (intro io_inv_move[OF io k, where ts = "[]"]) simp_all
  have status: "io_inv d inp (setpc k p' c1)" if "tasks c1 = tasks c" "inputs c1 = inputs c"
    "outputs c1 = outputs c" "sent (statusChan (dag c1)) = ?l @ [NodeState i s]"
    "collect_ok d inp (outputs c) i p'" "\<forall>xs ys. p' \<noteq> SetCompleted xs ys"
    "events_of i ?l @ [s] = [Running, Completed] \<longrightarrow> outputs c i \<noteq> None" for c1 p' s
    using that others i
    by (intro io_inv_move[OF io k, where ts = "[]"]) (auto simp: events_of_append)
  show ?thesis
  proof (cases p)
    case Acquire
    with st have "c' = setpc k SetRunning (c\<lparr>sem := Suc (sem c)\<rparr>)" by (simp split: if_splits)
    with quiet[of "c\<lparr>sem := Suc (sem c)\<rparr>" SetRunning] show ?thesis by simp
  next
    case SetRunning
    show ?thesis
    proof (cases "updateNodeStatus i Running (dag c)")
      case (Inl d')
      with st SetRunning have "c' = crash (c\<lparr>dag := d'\<rparr>)" by simp
      with updateNodeStatus_Inl[OF Inl] crashed[of "c\<lparr>dag := d'\<rparr>"] show ?thesis by simp
    next
      case (Inr d')
      with st SetRunning have "c' = setpc k Assemble (c\<lparr>dag := d'\<rparr>)" by simp
      with updateNodeStatus_Inr[OF Inr] status[of "c\<lparr>dag := d'\<rparr>" Running Assemble]
      show ?thesis by (simp add: events_end_Running)
    qed
  next
    case Assemble
    show ?thesis
    proof (cases "map_of (nodes (dag c)) i")
      case None
      with st Assemble crashed[of c] show ?thesis by simp
    next
      case (Some g)
      with st Assemble obtain gs where gs: "iterate ord (To (graph d) g) = Some gs"
        and c': "c' = setpc k (Collect gs (initial inp i)) c"
        by (auto simp: gr inp initial_def split: option.splits)
      from Some nd have "(i, g) \<in> set (nodes d)" by (auto dest: map_of_SomeD)
      with iterate_Some[OF gs] have "assembled d inp (outputs c) i gs (initial inp i)"
        unfolding assembled_def by (intro exI[of _ g] exI[of _ "[]"]) simp
      with quiet[of c "Collect gs (initial inp i)"] c' show ?thesis by simp
    qed
  next
    case (Collect gs xs)
    show ?thesis
    proof (cases gs)
      case Nil
      show ?thesis
      proof (cases "nodeMap (dag c) i")
        case None
        with st Collect Nil crashed[of c] show ?thesis by simp
      next
        case (Some n)
        with st Collect Nil have "c' = setpc k (CallExecute xs) (setNode i (SetInputs n xs) c)"
          by simp
        with quiet[of "setNode i (SetInputs n xs) c" "CallExecute xs"] own Collect Nil
        show ?thesis by (simp add: setNode_def)
      qed
    next
      case (Cons g gs')
      with st Collect have c': "c' = setpc k (Collect gs' (xs @ contrib d (outputs c) g)) c"
        by (simp add: collect_next idc)
      from own Collect Cons have "assembled d inp (outputs c) i (g # gs') xs" by simp
      then obtain v visited where v: "(i, v) \<in> set (nodes d)"
        "mset (To (graph d) v) = mset (visited @ g # gs')"
        "xs = initial inp i @ concat (map (contrib d (outputs c)) visited)"
        unfolding assembled_def by blast
      then have "assembled d inp (outputs c) i gs' (xs @ contrib d (outputs c) g)"
        unfolding assembled_def by (intro exI[of _ v] exI[of _ "visited @ [g]"]) simp
      with quiet[of c "Collect gs' (xs @ contrib d (outputs c) g)"] c' show ?thesis by simp
    qed
  next
    case (CallExecute xs)
    show ?thesis
    proof (cases "nodeMap (dag c) i")
      case None
      with st CallExecute crashed[of c] show ?thesis by simp
    next
      case (Some n)
      show ?thesis
      proof (cases "fst (Execute_node n)")
        case None
        with st CallExecute Some
        have "c' = setpc k (CallGetOutputs xs) (setNode i (snd (Execute_node n)) c)" by simp
        with quiet[of "setNode i (snd (Execute_node n)) c" "CallGetOutputs xs"] show ?thesis
          by (simp add: setNode_def)
      next
        case (Some e)
        with st CallExecute \<open>nodeMap (dag c) i = Some n\<close>
        have "c' = setpc k (RecordErr e) (setNode i (snd (Execute_node n)) c)" by simp
        with quiet[of "setNode i (snd (Execute_node n)) c" "RecordErr e"] show ?thesis
          by (simp add: setNode_def)
      qed
    qed
  next
    case (RecordErr e)
    with st have "c' = setpc k SetError (c\<lparr>execErr := Some e, errLog := errLog c @ [e]\<rparr>)" by simp
    with quiet[of "c\<lparr>execErr := Some e, errLog := errLog c @ [e]\<rparr>" SetError] show ?thesis by simp
  next
    case SetError
    show ?thesis
    proof (cases "updateNodeStatus i Error (dag c)")
      case (Inl d')
      with st SetError have "c' = crash (c\<lparr>dag := d'\<rparr>)" by simp
      with updateNodeStatus_Inl[OF Inl] crashed[of "c\<lparr>dag := d'\<rparr>"] show ?thesis by simp
    next
      case (Inr d')
      with st SetError have "c' = setpc k Exit (c\<lparr>dag := d'\<rparr>)" by simp
      with updateNodeStatus_Inr[OF Inr] status[of "c\<lparr>dag := d'\<rparr>" Error Exit]
      show ?thesis by (simp add: events_not_completed)
    qed
  next
    case (CallGetOutputs xs)
    show ?thesis
    proof (cases "nodeMap (dag c) i")
      case None
      with st CallGetOutputs crashed[of c] show ?thesis by simp
    next
      case (Some n)
      with st CallGetOutputs have "c' = setpc k (StoreOutputs xs (GetOutputs n)) c" by simp
      with quiet[of c "StoreOutputs xs (GetOutputs n)"] show ?thesis by simp
    qed
  next
    case (StoreOutputs xs ys)
    let ?c1 = "c\<lparr>outputs := (outputs c)(i \<mapsto> ys)\<rparr>"
    from st StoreOutputs have c': "c' = setpc k (SetCompleted xs ys) ?c1" by simp
    from own_released_iff[OF dist k] p i StoreOutputs have ni: "i \<notin> released_ids c" by simp
    have same: "contrib d (outputs ?c1) w = contrib d (outputs c) w"
      if "t \<in> set (tasks c)" "(tid t, v) \<in> set (nodes d)" "w \<in> set (To (graph d) v)" for t v w
    proof (cases "idOf d w")
      case None
      then show ?thesis by (simp add: contrib_def)
    next
      case (Some q)
      from pred_not_storing[OF b o ci that Some] ni have "q \<noteq> i" by auto
      with Some show ?thesis by (simp add: contrib_def)
    qed
    have "collect_ok d inp (outputs ?c1) (tid t) (tpc t)" if t: "t \<in> set (tasks c)" for t
    proof -
      from others t have ok: "collect_ok d inp (outputs c) (tid t) (tpc t)" by simp
      have cong: "assembled d inp (outputs ?c1) (tid t) gs acc"
        if "assembled d inp (outputs c) (tid t) gs acc" for gs acc
        using that same[OF t] by (intro assembled_outputs_cong[OF that]) blast
      from ok cong show ?thesis by (cases "tpc t") simp_all
    qed
    then show ?thesis
      unfolding c' using i
      by (intro io_inv_move[OF io k, where ts = "[]"]) simp_all
  next
    case (SetCompleted xs ys)
    from io k p i SetCompleted have stored: "outputs c i \<noteq> None"
      unfolding io_inv_def by (metis nth_mem)
    show ?thesis
    proof (cases "updateNodeStatus i Completed (dag c)")
      case (Inl d')
      with st SetCompleted have "c' = crash (c\<lparr>dag := d'\<rparr>)" by simp
      with updateNodeStatus_Inl[OF Inl] crashed[of "c\<lparr>dag := d'\<rparr>"] show ?thesis by simp
    next
      case (Inr d')
      with st SetCompleted have "c' = setpc k (NotifyIO xs ys) (c\<lparr>dag := d'\<rparr>)" by simp
      with updateNodeStatus_Inr[OF Inr] status[of "c\<lparr>dag := d'\<rparr>" Completed "NotifyIO xs ys"] stored
      show ?thesis by simp
    qed
  next
    case (NotifyIO xs ys)
    show ?thesis
    proof (cases "notifyNodeIO i xs ys (dag c)")
      case None
      with st NotifyIO crashed[of c] show ?thesis by simp
    next
      case (Some d')
      with st NotifyIO have "c' = setpc k Release (c\<lparr>dag := d'\<rparr>)" by simp
      with notifyNodeIO_Some[OF Some] quiet[of "c\<lparr>dag := d'\<rparr>" Release] show ?thesis by simp
    qed
  next
    case Release
    show ?thesis
    proof (cases "map_of (nodes (dag c)) i")
      case None
      with st Release crashed[of c] show ?thesis by simp
    next
      case (Some g)
      from st Release Some obtain gs where c': "c' = setpc k Exit (release gs c)"
        by (auto split: option.splits)
      let ?r = "release gs c"
      from release_tasks[of gs c] obtain ts where
        ts: "tasks ?r = tasks c @ ts" "\<forall>t \<in> set ts. tpc t = Acquire" by blast
      show ?thesis
        unfolding c' using others
        by (intro io_inv_move[OF io k ts]) (simp_all add: release_frame)
    qed
  next
    case Exit
    with st have "c' = setpc k Done (c\<lparr>sem := sem c - 1, wg := wg c - 1\<rparr>)" by simp
    with quiet[of "c\<lparr>sem := sem c - 1, wg := wg c - 1\<rparr>" Done] show ?thesis by simp
  next
    case Done
    with st show ?thesis by simp
  qed
qed

lemma main_step_outputs: "main_step q c = Some c' \<Longrightarrow> outputs c' = outputs c"
proof (cases q)
  case (Seed ns)
  assume "main_step q c = Some c'"
  with Seed show ?thesis by (cases ns) (auto simp: seed_frame)
qed (auto simp: crash_def split: option.splits if_splits)

lemma io_inv_append:
  assumes "io_inv d inp c" and "tasks c1 = tasks c @ ts" and "\<forall>t \<in> set ts. tpc t = Acquire"
    and "inputs c1 = inputs c" and "outputs c1 = outputs c"
    and "sent (statusChan (dag c1)) = sent (statusChan (dag c))"
  shows "io_inv d inp c1"
  using assms by (auto simp: io_inv_def)

lemma step_io_inv:
  assumes b: "built d" and o: "once_inv d c" and ci: "count_inv d c" and io: "io_inv d inp c"
    and st: "step c a = Some c'"
  shows "io_inv d inp c'"
proof -
  have task: "io_inv d inp c'"
    if "task_step ord k (tid (tasks c ! k)) (tpc (tasks c ! k)) c = Some c'"
      and "k < length (tasks c)" for ord k
    using that b o ci io by (intro task_step_io_inv[of d c inp ord k _ _ c']) simp_all
  show ?thesis
  proof (cases a)
    case (SortOk xs)
    with st have "c' = crash c \<or> c' = c\<lparr>mainpc := Seed xs\<rparr>"
      by (auto split: mainpc.splits if_splits)
    then show ?thesis by (intro io_inv_cong[OF io]) (auto simp: crash_def)
  next
    case Main
    with st have ms: "main_step (mainpc c) c = Some c'" by (auto split: if_splits)
    from main_step_shape[OF ms] obtain ts where
      "sent (statusChan (dag c')) = sent (statusChan (dag c))"
      "tasks c' = tasks c @ ts" "\<forall>t \<in> set ts. tpc t = Acquire" by blast
    with main_step_frame[OF ms] main_step_outputs[OF ms] show ?thesis
      by (intro io_inv_append[OF io]) simp_all
  next
    case (Task k)
    with st task[of None k] show ?thesis by (auto split: if_splits)
  next
    case (TaskIter k xs)
    with st task[of "Some xs" k] show ?thesis by (auto split: if_splits)
  qed
qed

lemma io_inv_init: "built d \<Longrightarrow> io_inv d inp (Execute_init d inp)"
  using built_chans[of d] by (simp add: io_inv_def Execute_init_def)

lemma orderly_io_inv:
  assumes "built d" and "exec (Execute_init d inp) sch = Some c"
    and "orderly (Execute_init d inp) sch"
  shows "once_inv d c \<and> count_inv d c \<and> io_inv d inp c"
proof -
  from assms(1) have keys: "distinct (map fst (nodes d))" by (rule built_distinct_keys)
  let ?P = "\<lambda>c. once_inv d c \<and> count_inv d c \<and> io_inv d inp c"
  from assms(1) have "?P (Execute_init d inp)"
    by (simp add: once_inv_init count_inv_init io_inv_init)
  with assms(2,3) show ?thesis
  proof (rule exec_invariant_orderly)
    fix c a c'
    assume "?P c" and "step c a = Some c'" and "\<not> (is_Task a \<and> seeding (mainpc c))"
    then show "?P c'"
      using step_once_inv[OF _ keys, of c a c'] step_count_inv[OF assms(1), of c a c']
        step_io_inv[OF assms(1), of c inp a c'] by blast
  qed
qed

text \<open>
  In an orderly run a node is executed on its initial input followed by the outputs of all
  its predecessors, each once, in the order in which the loop over \<open>To\<close> met them, and
  every predecessor has stored its outputs by then.
\<close>

lemma orderly_inputs_complete:
  assumes b: "built d" and e: "exec (Execute_init d inp) sch = Some c"
    and ord: "orderly (Execute_init d inp) sch"
    and t: "t \<in> set (tasks c)" and pc: "tpc t = CallExecute ins"
    and v: "(tid t, v) \<in> set (nodes d)"
  shows "(\<exists>visited. mset visited = mset (To (graph d) v)
            \<and> ins = initial inp (tid t) @ concat (map (contrib d (outputs c)) visited))
         \<and> (\<forall>w \<in> set (To (graph d) v). \<forall>p. idOf d w = Some p \<longrightarrow> outputs c p \<noteq> None)"
proof -
  from orderly_io_inv[OF b e ord] have o: "once_inv d c" and ci: "count_inv d c"
    and io: "io_inv d inp c" by simp_all
  from b have keys: "distinct (map fst (nodes d))" by (rule built_distinct_keys)
  from io t pc have "assembled d inp (outputs c) (tid t) [] ins"
    unfolding io_inv_def by (metis collect_ok.simps(2))
  then obtain v' visited where "(tid t, v') \<in> set (nodes d)"
    "mset (To (graph d) v') = mset visited"
    "ins = initial inp (tid t) @ concat (map (contrib d (outputs c)) visited)"
    unfolding assembled_def by auto
  with distinct_keys_unique[OF keys v] have
    "\<exists>visited. mset visited = mset (To (graph d) v)
       \<and> ins = initial inp (tid t) @ concat (map (contrib d (outputs c)) visited)" by metis
  moreover have "outputs c p \<noteq> None" if "w \<in> set (To (graph d) v)" "idOf d w = Some p" for w p
  proof -
    from pred_not_storing[OF b o ci t v that] have "p \<in> released_ids c" .
    then have "events_of p (sent (statusChan (dag c))) = [Running, Completed]"
      by (auto simp: released_ids_def)
    with io show ?thesis by (simp add: io_inv_def)
  qed
  ultimately show ?thesis by blast
qed

text \<open>
  Which order that is, is not fixed: in two orderly runs of \<open>w \<rightarrow> z \<rightarrow> y\<close>, \<open>x \<rightarrow> y\<close> that
  differ only in the order in which \<open>y\<close> meets \<open>z\<close> and \<open>x\<close>, the inputs passed to \<open>y\<close>
  are the outputs of both, in either order.
\<close>

lemma predecessor_order_not_fixed:
  "orderly (Execute_init (dag_join textProcessor) inp_wx) (sched_join_orderly (Task 3))
   \<and> orderly (Execute_init (dag_join textProcessor) inp_wx) (sched_join_orderly (TaskIter 3 [2, 1]))
   \<and> io_events (run (dag_join textProcessor) inp_wx (sched_join_orderly (Task 3))) =
       [NodeIO ''w'' [''W''] [''W''], NodeIO ''x'' [''X''] [''X''],
        NodeIO ''z'' [''W''] [''W''], NodeIO ''y'' [''W'', ''X''] [''W X'']]
   \<and> io_events (run (dag_join textProcessor) inp_wx (sched_join_orderly (TaskIter 3 [2, 1]))) =
       [NodeIO ''w'' [''W''] [''W''], NodeIO ''x'' [''X''] [''X''],
        NodeIO ''z'' [''W''] [''W''], NodeIO ''y'' [''X'', ''W''] [''X W'']]"
  by code_simp

end
